theory Spec2Isabelle
  imports Main
begin

section \<open>Data model (src/types.ts, src/logger/logger.ts)\<close>

text \<open>
  \<^verbatim>\<open>Level\<close> is a numeric TypeScript enum (levels.ts); the logger compares levels with
  \<^verbatim>\<open>></\<close> only, so a level is an integer here. The declared members of the enum are
  not needed by the dispatch engine; where a function names one (\<^verbatim>\<open>Level.DEBUG\<close>,
  \<^verbatim>\<open>Level.ERROR\<close>, ...) the enum is a parameter of the model.
\<close>

type_synonym Level = int

record LevelEnum =
  DEBUG :: Level
  INFO :: Level
  WARNING :: Level
  ERROR :: Level
  CRITICAL :: Level

text \<open>The interface \<^verbatim>\<open>LogRecord\<close> of types.ts; \<^verbatim>\<open>unknown\<close> values have type \<open>'a\<close>.\<close>

record 'a LogRecord =
  msg :: 'a
  metadata :: "'a list"
  dateTime :: nat
  level :: Level

text \<open>The class \<^verbatim>\<open>LogMetaImpl\<close> of logger.ts.\<close>

record LogMeta =
  minLogLevel :: Level
  minLogLevelFrom :: string
  sessionStarted :: nat
  hostname :: string

text \<open>
  A \<^verbatim>\<open>Stream\<close> is an object with an identity (the logger compares streams with
  \<^verbatim>\<open>!==\<close>), four optional hooks and \<^verbatim>\<open>handle\<close>. Everything a hook, filter,
  obfuscator, trigger or message supplier can read or change outside the logger is the
  world \<open>'w\<close>, passed in and returned. The callbacks are taken to return normally.
\<close>

record ('a, 'w) Stream =
  ref :: nat
  logHeader :: "(LogMeta \<Rightarrow> 'w \<Rightarrow> 'w) option"
  logFooter :: "(LogMeta \<Rightarrow> 'w \<Rightarrow> 'w) option"
  setupHook :: "('w \<Rightarrow> 'w) option"
  destroy :: "('w \<Rightarrow> 'w) option"
  handle :: "'a LogRecord \<Rightarrow> 'w \<Rightarrow> 'w"

type_synonym ('a, 'w) TriggerFn = "'a LogRecord \<Rightarrow> 'w \<Rightarrow> 'w"
type_synonym ('a, 'w) FilterFn = "('a, 'w) Stream \<Rightarrow> 'a LogRecord \<Rightarrow> 'w \<Rightarrow> bool \<times> 'w"
type_synonym ('a, 'w) ObfuscatorFn =
  "('a, 'w) Stream \<Rightarrow> 'a LogRecord \<Rightarrow> 'w \<Rightarrow> 'a LogRecord \<times> 'w"

text \<open>The message argument of an emit call: a supplier \<^verbatim>\<open>() => T\<close> or a value.\<close>

datatype ('a, 'w) Msg = Fn "'w \<Rightarrow> 'a \<times> 'w" | Val 'a

record ('a, 'w) Logger =
  minLevel :: Level
  streams :: "('a, 'w) Stream list"
  filters :: "('a, 'w) FilterFn list"
  triggers :: "('a, 'w) TriggerFn list"
  obfuscators :: "('a, 'w) ObfuscatorFn list"
  streamAdded :: bool
  meta :: LogMeta

text \<open>
  The calls the logger makes, in the order it makes them. A stream is named by its
  position in \<^verbatim>\<open>#streams\<close> during an emit call and by its identity in
  \<^verbatim>\<open>removeStream\<close>; a filter, obfuscator or trigger by its position in its list.
  \<open>ShouldFilterOut i j r b\<close>: filter \<open>j\<close> was called with stream \<open>i\<close> and record \<open>r\<close>
  and returned \<open>b\<close>. \<open>Obfuscate i j r r'\<close>: obfuscator \<open>j\<close> was called with stream \<open>i\<close>
  and record \<open>r\<close> and returned \<open>r'\<close>.
\<close>

datatype 'a call =
    MsgCall
  | Check nat "'a LogRecord"
  | ShouldFilterOut nat nat "'a LogRecord" bool
  | Obfuscate nat nat "'a LogRecord" "'a LogRecord"
  | Handle nat "'a LogRecord"
  | LogFooter nat LogMeta
  | Destroy nat

section \<open>The dispatch engine (src/logger/logger.ts)\<close>

text \<open>
  Modelled from the spec: the constructor of \<^verbatim>\<open>ImmutableLogRecord\<close> (logRecord.ts is
  not among the sources). The record holds the message, the metadata, the level and the
  instant of construction, which is the argument \<open>now\<close>.
\<close>

definition ImmutableLogRecord :: "'a \<Rightarrow> 'a list \<Rightarrow> Level \<Rightarrow> nat \<Rightarrow> 'a LogRecord" where
  "ImmutableLogRecord m md lvl now = \<lparr>msg = m, metadata = md, dateTime = now, level = lvl\<rparr>"

text \<open>The trigger loop of \<^verbatim>\<open>logToStreams\<close>, from index \<open>i\<close>.\<close>

fun checkTriggers ::
  "nat \<Rightarrow> ('a, 'w) TriggerFn list \<Rightarrow> 'a LogRecord \<Rightarrow> 'w \<Rightarrow> 'w \<times> 'a call list" where
  "checkTriggers i [] r w = (w, [])"
| "checkTriggers i (t # ts) r w =
     (let (w', tr) = checkTriggers (Suc i) ts r (t r w) in (w', Check i r # tr))"

text \<open>
  The filter loop for stream \<open>i\<close>, from filter \<open>j\<close>:
  \<^verbatim>\<open>for (let j = 0; j < this.#filters.length && !skip; j++)\<close>. The result is \<^verbatim>\<open>skip\<close>.
\<close>

fun applyFilters ::
  "nat \<Rightarrow> nat \<Rightarrow> ('a, 'w) FilterFn list \<Rightarrow> ('a, 'w) Stream \<Rightarrow> 'a LogRecord \<Rightarrow> 'w
     \<Rightarrow> bool \<times> 'w \<times> 'a call list" where
  "applyFilters i j [] s r w = (False, w, [])"
| "applyFilters i j (f # fs) s r w =
     (let (b, w') = f s r w in
      if b then (True, w', [ShouldFilterOut i j r True])
      else (let (skip, w'', tr) = applyFilters i (Suc j) fs s r w'
            in (skip, w'', ShouldFilterOut i j r False # tr)))"

text \<open>
  The obfuscator loop for stream \<open>i\<close>, from obfuscator \<open>j\<close>, entered when \<^verbatim>\<open>skip\<close>
  is false: \<^verbatim>\<open>logRecord = this.#obfuscators[j].obfuscate(stream, logRecord)\<close>.
\<close>

fun applyObfuscators ::
  "nat \<Rightarrow> nat \<Rightarrow> ('a, 'w) ObfuscatorFn list \<Rightarrow> ('a, 'w) Stream \<Rightarrow> 'a LogRecord \<Rightarrow> 'w
     \<Rightarrow> 'a LogRecord \<times> 'w \<times> 'a call list" where
  "applyObfuscators i j [] s r w = (r, w, [])"
| "applyObfuscators i j (ob # obs) s r w =
     (let (r', w') = ob s r w;
          (r'', w'', tr) = applyObfuscators i (Suc j) obs s r' w'
      in (r'', w'', Obfuscate i j r r' # tr))"

text \<open>
  The body of the stream loop for the stream at position \<open>i\<close>: filters, then (unless
  skipped) obfuscators and \<^verbatim>\<open>handle\<close>. It returns the value of the variable
  \<^verbatim>\<open>logRecord\<close> after the iteration.
\<close>

definition processStream ::
  "nat \<Rightarrow> ('a, 'w) FilterFn list \<Rightarrow> ('a, 'w) ObfuscatorFn list \<Rightarrow> ('a, 'w) Stream
     \<Rightarrow> 'a LogRecord \<Rightarrow> 'w \<Rightarrow> 'a LogRecord \<times> 'w \<times> 'a call list" where
  "processStream i fs obs s r w =
     (let (skip, w1, t1) = applyFilters i 0 fs s r w in
      if skip then (r, w1, t1)
      else (let (r2, w2, t2) = applyObfuscators i 0 obs s r w1
            in (r2, handle s r2 w2, t1 @ t2 @ [Handle i r2])))"

text \<open>The stream loop \<^verbatim>\<open>for (let i = 0; i < this.#streams.length; i++)\<close>, from \<open>i\<close>.\<close>

fun processStreams ::
  "nat \<Rightarrow> ('a, 'w) FilterFn list \<Rightarrow> ('a, 'w) ObfuscatorFn list \<Rightarrow> ('a, 'w) Stream list
     \<Rightarrow> 'a LogRecord \<Rightarrow> 'w \<Rightarrow> 'a LogRecord \<times> 'w \<times> 'a call list" where
  "processStreams i fs obs [] r w = (r, w, [])"
| "processStreams i fs obs (s # ss) r w =
     (let (r1, w1, t1) = processStream i fs obs s r w;
          (r2, w2, t2) = processStreams (Suc i) fs obs ss r1 w1
      in (r2, w2, t1 @ t2))"

text \<open>
  \<^verbatim>\<open>Logger.logToStreams\<close>. The result is the returned value (\<open>None\<close> for
  \<^verbatim>\<open>undefined\<close> returned in place of an unresolved supplier), the world afterwards and
  the calls made.
\<close>

definition logToStreams ::
  "('a, 'w) Logger \<Rightarrow> Level \<Rightarrow> ('a, 'w) Msg \<Rightarrow> 'a list \<Rightarrow> nat \<Rightarrow> 'w
     \<Rightarrow> 'a option \<times> 'w \<times> 'a call list" where
  "logToStreams lg lvl m md now w =
     (if minLevel lg > lvl then
        (case m of Fn f \<Rightarrow> (None, w, []) | Val v \<Rightarrow> (Some v, w, []))
      else
        (let (resolvedMsg, w0, t0) =
               (case m of Fn f \<Rightarrow> (let (v, w') = f w in (v, w', [MsgCall]))
                        | Val v \<Rightarrow> (v, w, []));
             logRecord = ImmutableLogRecord resolvedMsg md lvl now;
             (w1, t1) = checkTriggers 0 (triggers lg) logRecord w0;
             (r2, w2, t2) =
               processStreams 0 (filters lg) (obfuscators lg) (streams lg) logRecord w1
         in (Some resolvedMsg, w2, t0 @ t1 @ t2)))"

definition debug ::
  "LevelEnum \<Rightarrow> ('a, 'w) Logger \<Rightarrow> ('a, 'w) Msg \<Rightarrow> 'a list \<Rightarrow> nat \<Rightarrow> 'w
     \<Rightarrow> 'a option \<times> 'w \<times> 'a call list" where
  "debug L lg m md now w = logToStreams lg (DEBUG L) m md now w"

definition info ::
  "LevelEnum \<Rightarrow> ('a, 'w) Logger \<Rightarrow> ('a, 'w) Msg \<Rightarrow> 'a list \<Rightarrow> nat \<Rightarrow> 'w
     \<Rightarrow> 'a option \<times> 'w \<times> 'a call list" where
  "info L lg m md now w = logToStreams lg (INFO L) m md now w"

definition warning ::
  "LevelEnum \<Rightarrow> ('a, 'w) Logger \<Rightarrow> ('a, 'w) Msg \<Rightarrow> 'a list \<Rightarrow> nat \<Rightarrow> 'w
     \<Rightarrow> 'a option \<times> 'w \<times> 'a call list" where
  "warning L lg m md now w = logToStreams lg (WARNING L) m md now w"

definition error ::
  "LevelEnum \<Rightarrow> ('a, 'w) Logger \<Rightarrow> ('a, 'w) Msg \<Rightarrow> 'a list \<Rightarrow> nat \<Rightarrow> 'w
     \<Rightarrow> 'a option \<times> 'w \<times> 'a call list" where
  "error L lg m md now w = logToStreams lg (ERROR L) m md now w"

definition critical ::
  "LevelEnum \<Rightarrow> ('a, 'w) Logger \<Rightarrow> ('a, 'w) Msg \<Rightarrow> 'a list \<Rightarrow> nat \<Rightarrow> 'w
     \<Rightarrow> 'a option \<times> 'w \<times> 'a call list" where
  "critical L lg m md now w = logToStreams lg (CRITICAL L) m md now w"

definition log ::
  "('a, 'w) Logger \<Rightarrow> Level \<Rightarrow> ('a, 'w) Msg \<Rightarrow> 'a list \<Rightarrow> nat \<Rightarrow> 'w
     \<Rightarrow> 'a option \<times> 'w \<times> 'a call list" where
  "log lg lvl m md now w = logToStreams lg lvl m md now w"

text \<open>
  \<^verbatim>\<open>Logger.removeStream\<close>: the stream list is filtered by identity, then the footer
  and destroy hooks of the argument are called when present.
\<close>

definition removeStream ::
  "('a, 'w) Logger \<Rightarrow> ('a, 'w) Stream \<Rightarrow> 'w \<Rightarrow> ('a, 'w) Logger \<times> 'w \<times> 'a call list" where
  "removeStream lg rs w =
     (let lg' = lg\<lparr>streams := filter (\<lambda>s. ref s \<noteq> ref rs) (streams lg)\<rparr>;
          (w1, t1) = (case logFooter rs of
                        Some f \<Rightarrow> (f (meta lg') w, [LogFooter (ref rs) (meta lg')])
                      | None \<Rightarrow> (w, []));
          (w2, t2) = (case destroy rs of
                        Some d \<Rightarrow> (d w1, [Destroy (ref rs)])
                      | None \<Rightarrow> (w1, []))
      in (lg', w2, t1 @ t2))"

section \<open>Reading the calls of an emit call\<close>

text \<open>The position of the stream a call concerns; none for suppliers, triggers and hooks.\<close>

fun streamOf :: "'a call \<Rightarrow> nat option" where
  "streamOf (ShouldFilterOut i j r b) = Some i"
| "streamOf (Obfuscate i j r r') = Some i"
| "streamOf (Handle i r) = Some i"
| "streamOf c = None"

text \<open>The calls that concern the stream at position \<open>i\<close>, in order.\<close>

definition callsAt :: "nat \<Rightarrow> 'a call list \<Rightarrow> 'a call list" where
  "callsAt i tr = filter (\<lambda>c. streamOf c = Some i) tr"

text \<open>
  A filter or obfuscator whose result depends on the stream and the record only and that
  leaves the world alone.
\<close>

definition pureFilter :: "(('a, 'w) Stream \<Rightarrow> 'a LogRecord \<Rightarrow> bool) \<Rightarrow> ('a, 'w) FilterFn" where
  "pureFilter g = (\<lambda>s r w. (g s r, w))"

definition pureObfuscator ::
  "(('a, 'w) Stream \<Rightarrow> 'a LogRecord \<Rightarrow> 'a LogRecord) \<Rightarrow> ('a, 'w) ObfuscatorFn" where
  "pureObfuscator h = (\<lambda>s r w. (h s r, w))"

text \<open>
  A list of obfuscator calls for stream \<open>i\<close>, numbered from \<open>j\<close>, that leads from record
  \<open>r\<close> to record \<open>r'\<close>: the first is called with \<open>r\<close>, each later one with what the one
  before returned, and the last returns \<open>r'\<close>.
\<close>

fun obfuscatorChain ::
  "nat \<Rightarrow> nat \<Rightarrow> 'a call list \<Rightarrow> 'a LogRecord \<Rightarrow> 'a LogRecord \<Rightarrow> bool" where
  "obfuscatorChain i j [] r r' = (r' = r)"
| "obfuscatorChain i j (c # cs) r r' =
     (case c of
        Obfuscate i' j' x y \<Rightarrow> i' = i \<and> j' = j \<and> x = r \<and> obfuscatorChain i (Suc j) cs y r'
      | _ \<Rightarrow> False)"

section \<open>Callbacks whose results depend on the stream and the record only\<close>

text \<open>
  \<open>filterResult f g\<close>: whatever the world, and whatever \<open>f\<close> does to it, the filter \<open>f\<close>
  answers \<open>g s r\<close> for stream \<open>s\<close> and record \<open>r\<close>; likewise \<open>obfuscatorResult\<close>. The
  filters and obfuscators of the logger's tests, which count their calls, are of this
  kind.
\<close>

definition filterResult ::
  "('a, 'w) FilterFn \<Rightarrow> (('a, 'w) Stream \<Rightarrow> 'a LogRecord \<Rightarrow> bool) \<Rightarrow> bool" where
  "filterResult f g = (\<forall>s r w. fst (f s r w) = g s r)"

definition obfuscatorResult ::
  "('a, 'w) ObfuscatorFn \<Rightarrow> (('a, 'w) Stream \<Rightarrow> 'a LogRecord \<Rightarrow> 'a LogRecord) \<Rightarrow> bool" where
  "obfuscatorResult ob h = (\<forall>s r w. fst (ob s r w) = h s r)"

text \<open>
  For such callbacks, with result functions \<open>gs\<close> and \<open>hs\<close>: whether stream \<open>s\<close> is
  filtered out on record \<open>r\<close>; what the obfuscator chain makes of \<open>r\<close> for \<open>s\<close>; the
  record that goes on after the cycle of \<open>s\<close>; the record that has been carried through
  the cycles of the streams \<open>ss\<close>.
\<close>

definition filteredOut ::
  "(('a, 'w) Stream \<Rightarrow> 'a LogRecord \<Rightarrow> bool) list \<Rightarrow> ('a, 'w) Stream \<Rightarrow> 'a LogRecord \<Rightarrow> bool" where
  "filteredOut gs s r = list_ex (\<lambda>g. g s r) gs"

definition obfuscated ::
  "(('a, 'w) Stream \<Rightarrow> 'a LogRecord \<Rightarrow> 'a LogRecord) list \<Rightarrow> ('a, 'w) Stream \<Rightarrow> 'a LogRecord
     \<Rightarrow> 'a LogRecord" where
  "obfuscated hs s r = foldl (\<lambda>x h. h s x) r hs"

definition carriedOn ::
  "(('a, 'w) Stream \<Rightarrow> 'a LogRecord \<Rightarrow> bool) list
     \<Rightarrow> (('a, 'w) Stream \<Rightarrow> 'a LogRecord \<Rightarrow> 'a LogRecord) list
     \<Rightarrow> ('a, 'w) Stream \<Rightarrow> 'a LogRecord \<Rightarrow> 'a LogRecord" where
  "carriedOn gs hs s r = (if filteredOut gs s r then r else obfuscated hs s r)"

definition carried ::
  "(('a, 'w) Stream \<Rightarrow> 'a LogRecord \<Rightarrow> bool) list
     \<Rightarrow> (('a, 'w) Stream \<Rightarrow> 'a LogRecord \<Rightarrow> 'a LogRecord) list
     \<Rightarrow> ('a, 'w) Stream list \<Rightarrow> 'a LogRecord \<Rightarrow> 'a LogRecord" where
  "carried gs hs ss r = foldl (\<lambda>x s. carriedOn gs hs s x) r ss"

text \<open>
  The calls such callbacks are expected to receive: the filters in order up to the
  first that filters out; the obfuscators in order, each on the result of the one
  before; for one stream, its filters and, unless it is filtered out, its obfuscators
  and \<^verbatim>\<open>handle\<close> on the result of the chain; for the streams \<open>ss\<close>, one such cycle
  after the other on the carried record.
\<close>

fun filterCalls ::
  "nat \<Rightarrow> nat \<Rightarrow> (('a, 'w) Stream \<Rightarrow> 'a LogRecord \<Rightarrow> bool) list \<Rightarrow> ('a, 'w) Stream
     \<Rightarrow> 'a LogRecord \<Rightarrow> 'a call list" where
  "filterCalls i j [] s r = []"
| "filterCalls i j (g # gs) s r =
     ShouldFilterOut i j r (g s r) # (if g s r then [] else filterCalls i (Suc j) gs s r)"

fun obfuscatorCalls ::
  "nat \<Rightarrow> nat \<Rightarrow> (('a, 'w) Stream \<Rightarrow> 'a LogRecord \<Rightarrow> 'a LogRecord) list \<Rightarrow> ('a, 'w) Stream
     \<Rightarrow> 'a LogRecord \<Rightarrow> 'a call list" where
  "obfuscatorCalls i j [] s r = []"
| "obfuscatorCalls i j (h # hs) s r =
     Obfuscate i j r (h s r) # obfuscatorCalls i (Suc j) hs s (h s r)"

definition cycleCalls ::
  "nat \<Rightarrow> (('a, 'w) Stream \<Rightarrow> 'a LogRecord \<Rightarrow> bool) list
     \<Rightarrow> (('a, 'w) Stream \<Rightarrow> 'a LogRecord \<Rightarrow> 'a LogRecord) list
     \<Rightarrow> ('a, 'w) Stream \<Rightarrow> 'a LogRecord \<Rightarrow> 'a call list" where
  "cycleCalls i gs hs s r =
     filterCalls i 0 gs s r
       @ (if filteredOut gs s r then []
          else obfuscatorCalls i 0 hs s r @ [Handle i (obfuscated hs s r)])"

fun streamsCalls ::
  "nat \<Rightarrow> (('a, 'w) Stream \<Rightarrow> 'a LogRecord \<Rightarrow> bool) list
     \<Rightarrow> (('a, 'w) Stream \<Rightarrow> 'a LogRecord \<Rightarrow> 'a LogRecord) list
     \<Rightarrow> ('a, 'w) Stream list \<Rightarrow> 'a LogRecord \<Rightarrow> 'a call list" where
  "streamsCalls i gs hs [] r = []"
| "streamsCalls i gs hs (s # ss) r =
     cycleCalls i gs hs s r @ streamsCalls (Suc i) gs hs ss (carriedOn gs hs s r)"

text \<open>The value an emit call resolves its message argument to.\<close>

definition resolved :: "('a, 'w) Msg \<Rightarrow> 'w \<Rightarrow> 'a" where
  "resolved m w = (case m of Fn f \<Rightarrow> fst (f w) | Val x \<Rightarrow> x)"

section \<open>The runtime the file sink runs in\<close>

text \<open>
  A file system is a map from paths to contents; strings are byte strings, so the
  \<^verbatim>\<open>TextEncoder\<close> is the identity and \<^verbatim>\<open>byteLength\<close> is \<open>length\<close>. The calls
  the sink and its rotation strategy make to the runtime, to the strategy and to the
  buffered writer are recorded in \<open>ops\<close>, in order. \<open>microtasks\<close> counts the drain
  callbacks passed to \<^verbatim>\<open>queueMicrotask\<close> that have not run yet.
\<close>

type_synonym FileSystem = "string \<rightharpoonup> string"

datatype op =
    ShouldRotate string
  | Rotate string
  | OpenSync string
  | Close string
  | RemoveSync string
  | RenameSync string string
  | WriteSync string
  | QueueMicrotask

record Deno =
  files :: FileSystem
  microtasks :: nat
  ops :: "op list"

text \<open>
  What the code can throw. \<open>OutOfFuel\<close> is not an exception of the program: a function
  that calls itself takes a bound on the calls and loop iterations still allowed, and
  answers \<open>OutOfFuel\<close> when the bound is used up. A call that answers \<open>OutOfFuel\<close> for
  every bound never returns (in the runtime, unbounded recursion ends in a
  \<^verbatim>\<open>RangeError\<close> for the exhausted call stack).
\<close>

datatype exn =
    Collision string
  | NegativeBufferSize
  | MaxBytesLessThanOne
  | AlreadyExists string
  | NotFound string
  | TypeError
  | OutOfFuel

text \<open>An exception leaves the state as it is at the throw.\<close>

datatype 's result = Ok 's | Err exn 's

text \<open>\<^verbatim>\<open>filename + "." + i\<close>: the decimal digits of a number.\<close>

definition digit :: "nat \<Rightarrow> char" where
  "digit n = ''0123456789'' ! n"

function numToString :: "nat \<Rightarrow> string" where
  "numToString n = (if n < 10 then [digit n] else numToString (n div 10) @ [digit (n mod 10)])"
  by pat_completeness auto
termination
  by (relation "measure id") auto

declare numToString.simps [simp del]

text \<open>\<^verbatim>\<open>fileInfo\<close> and \<^verbatim>\<open>exists\<close> of rotationStrategy.ts; of a file's info only the size is used.\<close>

definition fileInfo :: "Deno \<Rightarrow> string \<Rightarrow> nat option" where
  "fileInfo d filePath = map_option length (files d filePath)"

definition exists :: "Deno \<Rightarrow> string \<Rightarrow> bool" where
  "exists d file = (fileInfo d file \<noteq> None)"

definition removeSync :: "string \<Rightarrow> Deno \<Rightarrow> Deno result" where
  "removeSync p d =
     (let d' = d\<lparr>ops := ops d @ [RemoveSync p]\<rparr> in
      case files d p of
        None \<Rightarrow> Err (NotFound p) d'
      | Some c \<Rightarrow> Ok (d'\<lparr>files := (files d)(p := None)\<rparr>))"

definition renameSync :: "string \<Rightarrow> string \<Rightarrow> Deno \<Rightarrow> Deno result" where
  "renameSync src dst d =
     (let d' = d\<lparr>ops := ops d @ [RenameSync src dst]\<rparr> in
      case files d src of
        None \<Rightarrow> Err (NotFound src) d'
      | Some c \<Rightarrow> Ok (d'\<lparr>files := (files d)(src := None, dst \<mapsto> c)\<rparr>))"

record OpenOptions =
  optCreateNew :: bool
  optCreate :: bool
  optAppend :: bool
  optTruncate :: bool
  optWrite :: bool

text \<open>
  \<^verbatim>\<open>Deno.openSync\<close>: \<^verbatim>\<open>createNew\<close> fails on an existing file, \<^verbatim>\<open>truncate\<close> empties
  it, a missing file is created under \<^verbatim>\<open>create\<close> or \<^verbatim>\<open>createNew\<close>. The handle
  returned is named by the path; every write through it goes to the end of the file.
\<close>

definition openSync :: "string \<Rightarrow> OpenOptions \<Rightarrow> Deno \<Rightarrow> Deno result" where
  "openSync p opts d =
     (let d' = d\<lparr>ops := ops d @ [OpenSync p]\<rparr> in
      case files d p of
        Some c \<Rightarrow>
          if optCreateNew opts then Err (AlreadyExists p) d'
          else if optTruncate opts then Ok (d'\<lparr>files := (files d)(p \<mapsto> [])\<rparr>)
          else Ok d'
      | None \<Rightarrow>
          if optCreateNew opts \<or> optCreate opts then Ok (d'\<lparr>files := (files d)(p \<mapsto> [])\<rparr>)
          else Err (NotFound p) d')"

definition writeFile :: "string \<Rightarrow> string \<Rightarrow> Deno \<Rightarrow> Deno" where
  "writeFile p bytes d =
     d\<lparr>files := (files d)(p \<mapsto> (case files d p of None \<Rightarrow> bytes | Some c \<Rightarrow> c @ bytes))\<rparr>"

text \<open>
  \<^verbatim>\<open>BufWriterSync\<close> of the Deno standard library (deps.ts imports it from std v0.59.0;
  it is not part of this repository): a buffer of \<open>capacity\<close> bytes in front of a file.
  A size of 0 or less is replaced by the default 4096. \<^verbatim>\<open>writeSync\<close> appends to the
  buffer while the data fits; data larger than the free space is written straight to
  the file when the buffer is empty, and otherwise fills the buffer, which is flushed,
  before the rest is treated the same way. \<^verbatim>\<open>flush\<close> writes the buffered bytes to the
  file.
\<close>

record BufWriterSync =
  writer :: string
  capacity :: nat
  usedBuffer :: string

definition newBufWriterSync :: "string \<Rightarrow> nat \<Rightarrow> BufWriterSync" where
  "newBufWriterSync f sz = \<lparr>writer = f, capacity = (if sz \<le> 0 then 4096 else sz), usedBuffer = []\<rparr>"

definition available :: "BufWriterSync \<Rightarrow> nat" where
  "available bw = capacity bw - length (usedBuffer bw)"

definition buffered :: "BufWriterSync \<Rightarrow> nat" where
  "buffered bw = length (usedBuffer bw)"

definition bw_flush :: "BufWriterSync \<Rightarrow> Deno \<Rightarrow> BufWriterSync \<times> Deno" where
  "bw_flush bw d =
     (if buffered bw = 0 then (bw, d)
      else (bw\<lparr>usedBuffer := []\<rparr>, writeFile (writer bw) (usedBuffer bw) d))"

definition bw_writeSync :: "BufWriterSync \<Rightarrow> string \<Rightarrow> Deno \<Rightarrow> BufWriterSync \<times> Deno" where
  "bw_writeSync bw data d =
     (if length data \<le> available bw then (bw\<lparr>usedBuffer := usedBuffer bw @ data\<rparr>, d)
      else if buffered bw = 0 then (bw, writeFile (writer bw) data d)
      else (let n = available bw;
                (bw', d') = bw_flush (bw\<lparr>usedBuffer := usedBuffer bw @ take n data\<rparr>) d;
                rest = drop n data
            in if length rest \<le> available bw' then (bw'\<lparr>usedBuffer := rest\<rparr>, d')
               else (bw', writeFile (writer bw') rest d')))"

section \<open>Rotation strategies (src/streams/fileStream/rotationStrategy.ts)\<close>

datatype LogFileInitStrategy = Append | Overwrite | MustNotExist

datatype Periods = Minutes | Hours | Days

text \<open>
  Modelled from the spec: \<^verbatim>\<open>LogFileRetentionPolicy\<close> (retentionPolicy.ts is not among
  the sources). A policy is a quantity and a kind, read by the strategy as
  \<^verbatim>\<open>quantity\<close> and \<^verbatim>\<open>type\<close>: keep \<open>n\<close> files, or keep the files of \<open>n\<close> days or hours.
\<close>

datatype RetentionType = FilesT | DaysT | HoursT

record LogFileRetentionPolicy =
  quantity :: nat
  ptype :: RetentionType

text \<open>
  The interface \<^verbatim>\<open>RotationStrategy\<close>: an object with a state of its own and three
  methods that the file sink calls. \<^verbatim>\<open>shouldRotate\<close> reads the state only, as both
  classes of the file do.
\<close>

record 'rs RotationStrategy =
  state :: 'rs
  initLogs :: "'rs \<Rightarrow> string \<Rightarrow> LogFileInitStrategy \<Rightarrow> Deno \<Rightarrow> ('rs \<times> Deno) result"
  shouldRotate :: "'rs \<Rightarrow> string \<Rightarrow> bool"
  rotate :: "'rs \<Rightarrow> string \<Rightarrow> string \<Rightarrow> Deno \<Rightarrow> ('rs \<times> Deno) result"

record ByteRotationStrategy =
  maxBytes :: nat
  logFileRetentionPolicy :: LogFileRetentionPolicy
  currentFileSize :: nat

text \<open>\<^verbatim>\<open>of(7).files()\<close>, the policy a strategy starts with.\<close>

definition defaultRetentionPolicy :: LogFileRetentionPolicy where
  "defaultRetentionPolicy = \<lparr>quantity = 7, ptype = FilesT\<rparr>"

text \<open>The constructor, reached through \<^verbatim>\<open>every(quantity).bytes()\<close>.\<close>

definition newByteRotationStrategy :: "int \<Rightarrow> exn + ByteRotationStrategy" where
  "newByteRotationStrategy mb =
     (if mb < 1 then Inl MaxBytesLessThanOne
      else Inr \<lparr>maxBytes = nat mb, logFileRetentionPolicy = defaultRetentionPolicy,
                currentFileSize = 0\<rparr>)"

text \<open>
  The two branches of the class for a policy of days or hours list the directory and
  read the birth times of files; they are not part of the model and appear as
  parameters: \<open>ageInitLogs\<close> stands for the second branch of \<^verbatim>\<open>initLogs\<close>, \<open>ageMaxFiles\<close>
  for the value of \<^verbatim>\<open>maxFiles\<close> that \<^verbatim>\<open>rotate\<close> computes from the directory.
\<close>

record AgeBranches =
  ageInitLogs :: "ByteRotationStrategy \<Rightarrow> string \<Rightarrow> LogFileInitStrategy \<Rightarrow> Deno \<Rightarrow> Deno result"
  ageMaxFiles :: "ByteRotationStrategy \<Rightarrow> string \<Rightarrow> Deno \<Rightarrow> nat"

text \<open>
  The loop \<^verbatim>\<open>for (let i = 1; i <= quantity; i++)\<close> of \<^verbatim>\<open>initLogs\<close>, over the indices
  still to visit.
\<close>

fun initLogsFiles :: "string \<Rightarrow> LogFileInitStrategy \<Rightarrow> nat list \<Rightarrow> Deno \<Rightarrow> Deno result" where
  "initLogsFiles filename initStrategy [] d = Ok d"
| "initLogsFiles filename initStrategy (i # is) d =
     (if exists d (filename @ ''.'' @ numToString i) then
        (if initStrategy = MustNotExist then
           Err (Collision (filename @ ''.'' @ numToString i)) d
         else (case removeSync (filename @ ''.'' @ numToString i) d of
                 Ok d' \<Rightarrow> initLogsFiles filename initStrategy is d'
               | Err e d' \<Rightarrow> Err e d'))
      else initLogsFiles filename initStrategy is d)"

definition ByteRotationStrategy_initLogs ::
  "AgeBranches \<Rightarrow> ByteRotationStrategy \<Rightarrow> string \<Rightarrow> LogFileInitStrategy \<Rightarrow> Deno
     \<Rightarrow> (ByteRotationStrategy \<times> Deno) result" where
  "ByteRotationStrategy_initLogs ab rs filename initStrategy d =
     (if initStrategy = Append then
        Ok (rs\<lparr>currentFileSize := (case fileInfo d filename of Some sz \<Rightarrow> sz | None \<Rightarrow> 0)\<rparr>, d)
      else if ptype (logFileRetentionPolicy rs) = FilesT then
        (case initLogsFiles filename initStrategy
                [1..<Suc (quantity (logFileRetentionPolicy rs))] d of
           Ok d' \<Rightarrow> Ok (rs, d')
         | Err e d' \<Rightarrow> Err e (rs, d'))
      else
        (case ageInitLogs ab rs filename initStrategy d of
           Ok d' \<Rightarrow> Ok (rs, d')
         | Err e d' \<Rightarrow> Err e (rs, d')))"

definition ByteRotationStrategy_shouldRotate :: "ByteRotationStrategy \<Rightarrow> string \<Rightarrow> bool" where
  "ByteRotationStrategy_shouldRotate rs encodedMessage =
     (currentFileSize rs + length encodedMessage > maxBytes rs)"

text \<open>
  The loop \<^verbatim>\<open>for (let i = maxFiles - 1; i >= 0; i--)\<close> of \<^verbatim>\<open>rotate\<close>, over the indices
  still to visit.
\<close>

fun rotateFiles :: "string \<Rightarrow> nat list \<Rightarrow> Deno \<Rightarrow> Deno result" where
  "rotateFiles filename [] d = Ok d"
| "rotateFiles filename (i # is) d =
     (let source = filename @ (if i = 0 then [] else ''.'' @ numToString i);
          dest = filename @ ''.'' @ numToString (i + 1)
      in if exists d source then
           (case renameSync source dest d of
              Ok d' \<Rightarrow> rotateFiles filename is d'
            | Err e d' \<Rightarrow> Err e d')
         else rotateFiles filename is d)"

definition ByteRotationStrategy_rotate ::
  "AgeBranches \<Rightarrow> ByteRotationStrategy \<Rightarrow> string \<Rightarrow> string \<Rightarrow> Deno
     \<Rightarrow> (ByteRotationStrategy \<times> Deno) result" where
  "ByteRotationStrategy_rotate ab rs filename logMessage d =
     (let maxFiles = (if ptype (logFileRetentionPolicy rs) \<noteq> FilesT then ageMaxFiles ab rs filename d
                      else quantity (logFileRetentionPolicy rs))
      in case rotateFiles filename (rev [0..<maxFiles]) d of
           Ok d' \<Rightarrow> Ok (rs\<lparr>currentFileSize := length logMessage\<rparr>, d')
         | Err e d' \<Rightarrow> Err e (rs, d'))"

definition ByteRotationStrategy_withLogFileRetentionPolicy ::
  "ByteRotationStrategy \<Rightarrow> LogFileRetentionPolicy \<Rightarrow> ByteRotationStrategy" where
  "ByteRotationStrategy_withLogFileRetentionPolicy rs p = rs\<lparr>logFileRetentionPolicy := p\<rparr>"

text \<open>A \<^verbatim>\<open>ByteRotationStrategy\<close> object seen through the interface.\<close>

definition byteStrategy ::
  "AgeBranches \<Rightarrow> ByteRotationStrategy \<Rightarrow> ByteRotationStrategy RotationStrategy" where
  "byteStrategy ab rs =
     \<lparr>state = rs,
      initLogs = ByteRotationStrategy_initLogs ab,
      shouldRotate = ByteRotationStrategy_shouldRotate,
      rotate = ByteRotationStrategy_rotate ab\<rparr>"

text \<open>
  \<^verbatim>\<open>DateTimeRotationStrategy\<close>: its three methods have empty bodies, and
  \<^verbatim>\<open>shouldRotate\<close> answers false.
\<close>

record DateTimeRotationStrategy =
  interval :: nat
  period :: Periods
  useUTCTime :: bool
  dtRetentionPolicy :: LogFileRetentionPolicy

definition dateTimeStrategy :: "DateTimeRotationStrategy \<Rightarrow> DateTimeRotationStrategy RotationStrategy" where
  "dateTimeStrategy rs =
     \<lparr>state = rs,
      initLogs = (\<lambda>s filename initStrategy d. Ok (s, d)),
      shouldRotate = (\<lambda>s formattedMessage. False),
      rotate = (\<lambda>s filename logMessage d. Ok (s, d))\<rparr>"

section \<open>The file sink (src/streams/fileStream/fileStream.ts)\<close>

text \<open>
  The private fields of \<^verbatim>\<open>FileStream\<close>, in the order of the class; then what the class
  inherits from \<^verbatim>\<open>BaseStream\<close> and uses (baseStream.ts is not among the sources:
  the minimum level of the sink and \<^verbatim>\<open>format\<close> are fields here, and
  \<^verbatim>\<open>super.setup()\<close> is a parameter of \<^verbatim>\<open>setup\<close>); then the runtime. \<^verbatim>\<open>#buffer\<close> and
  \<^verbatim>\<open>#logFile\<close> are undefined (\<open>None\<close>) until \<^verbatim>\<open>setup\<close> has run.
\<close>

record ('a, 'rs) FileStream =
  filename :: string
  rotationStrategy :: "'rs RotationStrategy option"
  logFileInitStrategy :: LogFileInitStrategy
  maxBufferSize :: nat
  buffer :: "BufWriterSync option"
  logFile :: "string option"
  deferredLogQueue :: "'a LogRecord list"
  sinkMinLogLevel :: Level
  format :: "'a LogRecord \<Rightarrow> string"
  deno :: Deno

text \<open>The constructor: \<^verbatim>\<open>new FileStream(filename)\<close> with the defaults of the class.\<close>

definition newFileStream ::
  "string \<Rightarrow> Level \<Rightarrow> ('a LogRecord \<Rightarrow> string) \<Rightarrow> Deno \<Rightarrow> ('a, 'rs) FileStream" where
  "newFileStream f lvl fmt d =
     \<lparr>filename = f, rotationStrategy = None, logFileInitStrategy = Append,
      maxBufferSize = 8192, buffer = None, logFile = None, deferredLogQueue = [],
      sinkMinLogLevel = lvl, format = fmt, deno = d\<rparr>"

definition withLogFileRotation ::
  "('a, 'rs) FileStream \<Rightarrow> 'rs RotationStrategy \<Rightarrow> ('a, 'rs) FileStream" where
  "withLogFileRotation st strategy = st\<lparr>rotationStrategy := Some strategy\<rparr>"

definition withBufferSize :: "('a, 'rs) FileStream \<Rightarrow> int \<Rightarrow> ('a, 'rs) FileStream result" where
  "withBufferSize st bytes =
     (if bytes < 0 then Err NegativeBufferSize st else Ok (st\<lparr>maxBufferSize := nat bytes\<rparr>))"

definition withLogFileInitMode ::
  "('a, 'rs) FileStream \<Rightarrow> LogFileInitStrategy \<Rightarrow> ('a, 'rs) FileStream" where
  "withLogFileInitMode st mode = st\<lparr>logFileInitStrategy := mode\<rparr>"

definition logOp :: "op \<Rightarrow> ('a, 'rs) FileStream \<Rightarrow> ('a, 'rs) FileStream" where
  "logOp x st = st\<lparr>deno := (deno st)\<lparr>ops := ops (deno st) @ [x]\<rparr>\<rparr>"

text \<open>
  \<^verbatim>\<open>FileStream.setup\<close>: \<^verbatim>\<open>super.setup()\<close>, then \<^verbatim>\<open>initLogs\<close> of the strategy if
  there is one, then the file is opened with the options of the init mode and wrapped
  in a new buffer.
\<close>

definition FileStream_setup ::
  "(('a, 'rs) FileStream \<Rightarrow> ('a, 'rs) FileStream) \<Rightarrow> ('a, 'rs) FileStream
     \<Rightarrow> ('a, 'rs) FileStream result" where
  "FileStream_setup superSetup st0 =
     (let st = superSetup st0 in
      case (case rotationStrategy st of
              None \<Rightarrow> Ok st
            | Some rs \<Rightarrow>
                (case initLogs rs (state rs) (filename st) (logFileInitStrategy st) (deno st) of
                   Ok (s, d) \<Rightarrow> Ok (st\<lparr>rotationStrategy := Some (rs\<lparr>state := s\<rparr>), deno := d\<rparr>)
                 | Err e (s, d) \<Rightarrow>
                     Err e (st\<lparr>rotationStrategy := Some (rs\<lparr>state := s\<rparr>), deno := d\<rparr>))) of
        Err e st1 \<Rightarrow> Err e st1
      | Ok st1 \<Rightarrow>
          (let openOptions =
                 \<lparr>optCreateNew = (logFileInitStrategy st1 = MustNotExist),
                  optCreate = (logFileInitStrategy st1 \<noteq> MustNotExist),
                  optAppend = (logFileInitStrategy st1 = Append),
                  optTruncate = (logFileInitStrategy st1 \<noteq> Append),
                  optWrite = True\<rparr>
           in case openSync (filename st1) openOptions (deno st1) of
                Err e d \<Rightarrow> Err e (st1\<lparr>deno := d\<rparr>)
              | Ok d \<Rightarrow>
                  Ok (st1\<lparr>logFile := Some (filename st1),
                          buffer := Some (newBufWriterSync (filename st1) (maxBufferSize st1)),
                          deno := d\<rparr>)))"

text \<open>\<^verbatim>\<open>this.#buffer.writeSync(encodedMsg)\<close>, the last statement of \<^verbatim>\<open>log\<close>.\<close>

definition writeBuffer :: "string \<Rightarrow> ('a, 'rs) FileStream \<Rightarrow> ('a, 'rs) FileStream result" where
  "writeBuffer encodedMsg st =
     (case buffer st of
        None \<Rightarrow> Err TypeError st
      | Some bw \<Rightarrow>
          (let (bw', d') = bw_writeSync bw encodedMsg (deno st)
           in Ok (logOp (WriteSync encodedMsg) (st\<lparr>buffer := Some bw', deno := d'\<rparr>))))"

text \<open>The second statement of \<^verbatim>\<open>flush\<close>: \<^verbatim>\<open>if (this.#buffer?.buffered() > 0) this.#buffer.flush()\<close>.\<close>

definition flushBuffer :: "('a, 'rs) FileStream \<Rightarrow> ('a, 'rs) FileStream" where
  "flushBuffer st =
     (case buffer st of
        None \<Rightarrow> st
      | Some bw \<Rightarrow>
          if buffered bw > 0 then
            (let (bw', d') = bw_flush bw (deno st) in st\<lparr>buffer := Some bw', deno := d'\<rparr>)
          else st)"

text \<open>
  The statements of \<^verbatim>\<open>log\<close> between \<^verbatim>\<open>this.flush()\<close> and the final write, run when
  the strategy asked for a rotation: close the file, \<^verbatim>\<open>rotate\<close>, open a new file with
  \<^verbatim>\<open>createNew\<close>, wrap it in a new buffer.
\<close>

definition reopenRotated :: "string \<Rightarrow> ('a, 'rs) FileStream \<Rightarrow> ('a, 'rs) FileStream result" where
  "reopenRotated encodedMsg st =
     (case logFile st of
        None \<Rightarrow> Err TypeError st
      | Some f \<Rightarrow>
          (let st1 = logOp (Close f) st in
           case rotationStrategy st1 of
             None \<Rightarrow> Err TypeError st1
           | Some rs \<Rightarrow>
               (case rotate rs (state rs) (filename st1) encodedMsg
                       (deno (logOp (Rotate encodedMsg) st1)) of
                  Err e (s, d) \<Rightarrow>
                    Err e (st1\<lparr>rotationStrategy := Some (rs\<lparr>state := s\<rparr>), deno := d\<rparr>)
                | Ok (s, d) \<Rightarrow>
                    (let st2 = st1\<lparr>rotationStrategy := Some (rs\<lparr>state := s\<rparr>), deno := d\<rparr> in
                     case openSync (filename st2)
                            \<lparr>optCreateNew = True, optCreate = False, optAppend = False,
                             optTruncate = False, optWrite = True\<rparr> (deno st2) of
                       Err e d' \<Rightarrow> Err e (st2\<lparr>deno := d'\<rparr>)
                     | Ok d' \<Rightarrow>
                         Ok (st2\<lparr>logFile := Some (filename st2),
                                 buffer := Some (newBufWriterSync (filename st2) (maxBufferSize st2)),
                                 deno := d'\<rparr>)))))"

text \<open>
  The condition of \<^verbatim>\<open>log\<close>:
  \<^verbatim>\<open>this.#maxBufferSize > 0 && this.#rotationStrategy?.shouldRotate(encodedMsg)\<close>, with
  the call of \<^verbatim>\<open>shouldRotate\<close> recorded when it is made.
\<close>

definition rotationDue :: "string \<Rightarrow> ('a, 'rs) FileStream \<Rightarrow> bool \<times> ('a, 'rs) FileStream" where
  "rotationDue encodedMsg st =
     (if maxBufferSize st > 0 then
        (case rotationStrategy st of
           None \<Rightarrow> (False, st)
         | Some rs \<Rightarrow> (shouldRotate rs (state rs) encodedMsg, logOp (ShouldRotate encodedMsg) st))
      else (False, st))"

text \<open>
  \<^verbatim>\<open>processDeferredQueue\<close>, its loop from index \<open>i\<close> (\<open>drainFrom\<close>), \<^verbatim>\<open>log\<close> and
  \<^verbatim>\<open>flush\<close> call one another: \<^verbatim>\<open>processDeferredQueue\<close> calls \<^verbatim>\<open>log\<close> for each queued
  record and empties the queue after the loop, \<^verbatim>\<open>log\<close> calls \<^verbatim>\<open>flush\<close> before a
  rotation, and \<^verbatim>\<open>flush\<close> calls \<^verbatim>\<open>processDeferredQueue\<close> when the queue is not empty.
  The first argument bounds the calls and iterations.
\<close>

fun processDeferredQueue :: "nat \<Rightarrow> ('a, 'rs) FileStream \<Rightarrow> ('a, 'rs) FileStream result"
  and drainFrom :: "nat \<Rightarrow> nat \<Rightarrow> ('a, 'rs) FileStream \<Rightarrow> ('a, 'rs) FileStream result"
  and FileStream_log :: "nat \<Rightarrow> string \<Rightarrow> ('a, 'rs) FileStream \<Rightarrow> ('a, 'rs) FileStream result"
  and FileStream_flush :: "nat \<Rightarrow> ('a, 'rs) FileStream \<Rightarrow> ('a, 'rs) FileStream result"
where
  "processDeferredQueue 0 st = Err OutOfFuel st"
| "processDeferredQueue (Suc n) st =
     (case drainFrom n 0 st of
        Err e st' \<Rightarrow> Err e st'
      | Ok st' \<Rightarrow> Ok (st'\<lparr>deferredLogQueue := []\<rparr>))"
| "drainFrom 0 i st = Err OutOfFuel st"
| "drainFrom (Suc n) i st =
     (if i < length (deferredLogQueue st) then
        (case FileStream_log n (format st (deferredLogQueue st ! i)) st of
           Err e st' \<Rightarrow> Err e st'
         | Ok st' \<Rightarrow> drainFrom n (Suc i) st')
      else Ok st)"
| "FileStream_log 0 m st = Err OutOfFuel st"
| "FileStream_log (Suc n) m st =
     (let encodedMsg = m @ [CHR 0x0A];
          (due, st0) = rotationDue encodedMsg st
      in if due then
           (case FileStream_flush n st0 of
              Err e st1 \<Rightarrow> Err e st1
            | Ok st1 \<Rightarrow>
                (case reopenRotated encodedMsg st1 of
                   Err e st2 \<Rightarrow> Err e st2
                 | Ok st2 \<Rightarrow> writeBuffer encodedMsg st2))
         else writeBuffer encodedMsg st0)"
| "FileStream_flush 0 st = Err OutOfFuel st"
| "FileStream_flush (Suc n) st =
     (case (if length (deferredLogQueue st) > 0 then processDeferredQueue n st else Ok st) of
        Err e st1 \<Rightarrow> Err e st1
      | Ok st1 \<Rightarrow> Ok (flushBuffer st1))"

text \<open>
  \<^verbatim>\<open>FileStream.handle\<close>. A record above \<^verbatim>\<open>Level.ERROR\<close> is queued, the queue is
  processed and the sink flushed at once; any other record is queued, after a drain
  has been handed to \<^verbatim>\<open>queueMicrotask\<close> if the queue was empty.
\<close>

definition FileStream_handle ::
  "nat \<Rightarrow> LevelEnum \<Rightarrow> 'a LogRecord \<Rightarrow> ('a, 'rs) FileStream \<Rightarrow> ('a, 'rs) FileStream result" where
  "FileStream_handle fuel L logRecord st =
     (if sinkMinLogLevel st > level logRecord then Ok st
      else if level logRecord > ERROR L then
        (case processDeferredQueue fuel (st\<lparr>deferredLogQueue := deferredLogQueue st @ [logRecord]\<rparr>) of
           Err e st1 \<Rightarrow> Err e st1
         | Ok st1 \<Rightarrow> FileStream_flush fuel st1)
      else
        (let st1 = (if length (deferredLogQueue st) = 0 then
                      (logOp QueueMicrotask st)
                        \<lparr>deno := (deno (logOp QueueMicrotask st))
                           \<lparr>microtasks := Suc (microtasks (deno st))\<rparr>\<rparr>
                    else st)
         in Ok (st1\<lparr>deferredLogQueue := deferredLogQueue st1 @ [logRecord]\<rparr>)))"

text \<open>
  The runtime runs one scheduled microtask: the callback
  \<^verbatim>\<open>() => { this.processDeferredQueue(); }\<close>.
\<close>

definition runMicrotask :: "nat \<Rightarrow> ('a, 'rs) FileStream \<Rightarrow> ('a, 'rs) FileStream result" where
  "runMicrotask fuel st =
     (if microtasks (deno st) = 0 then Ok st
      else processDeferredQueue fuel (st\<lparr>deno := (deno st)\<lparr>microtasks := microtasks (deno st) - 1\<rparr>\<rparr>))"

section \<open>Fixtures, after the logger's tests\<close>

text \<open>
  \<^verbatim>\<open>TestStream\<close> records what is called on it; here the world is the list of
  (stream identity, text) entries the streams have recorded, and \<^verbatim>\<open>handle\<close> stores the
  message of the record. The filter \<open>skipStream n\<close> filters out the stream with identity
  \<open>n\<close>; the obfuscator \<open>redactFor n\<close> rewrites the message for stream \<open>n\<close> only, like the
  test's \<^verbatim>\<open>TestObfuscator\<close>.
\<close>

type_synonym TestWorld = "(nat \<times> string) list"

definition TestStream :: "nat \<Rightarrow> (string, TestWorld) Stream" where
  "TestStream n =
     \<lparr>ref = n,
      logHeader = Some (\<lambda>m w. w @ [(n, ''logHeader'')]),
      logFooter = Some (\<lambda>m w. w @ [(n, ''logFooter'')]),
      setupHook = Some (\<lambda>w. w @ [(n, ''setup'')]),
      destroy = Some (\<lambda>w. w @ [(n, ''destroy'')]),
      handle = (\<lambda>r w. w @ [(n, msg r)])\<rparr>"

definition skipStream :: "nat \<Rightarrow> (string, TestWorld) Stream \<Rightarrow> string LogRecord \<Rightarrow> bool" where
  "skipStream n s r = (ref s = n)"

definition neverSkip :: "(string, TestWorld) Stream \<Rightarrow> string LogRecord \<Rightarrow> bool" where
  "neverSkip s r = False"

definition redactFor ::
  "nat \<Rightarrow> (string, TestWorld) Stream \<Rightarrow> string LogRecord \<Rightarrow> string LogRecord" where
  "redactFor n s r = (if ref s = n then r\<lparr>msg := ''*********''\<rparr> else r)"

definition testMeta :: LogMeta where
  "testMeta = \<lparr>minLogLevel = 10, minLogLevelFrom = ''default value'', sessionStarted = 0,
                hostname = ''unavailable''\<rparr>"

definition testLogger ::
  "Level \<Rightarrow> (string, TestWorld) FilterFn list \<Rightarrow> (string, TestWorld) ObfuscatorFn list
     \<Rightarrow> (string, TestWorld) Logger" where
  "testLogger lvl fs obs =
     \<lparr>minLevel = lvl, streams = [TestStream 1, TestStream 2], filters = fs, triggers = [],
      obfuscators = obs, streamAdded = True, meta = testMeta\<rparr>"

definition testLevels :: LevelEnum where
  "testLevels = \<lparr>DEBUG = 10, INFO = 20, WARNING = 30, ERROR = 40, CRITICAL = 50\<rparr>"

text \<open>
  Callbacks like the \<^verbatim>\<open>TestFilter\<close> and \<^verbatim>\<open>TestObfuscator\<close> of the tests, which count
  their calls: here each call is recorded in the world. \<open>afterAnyHandle\<close> is a filter
  that reads the world: it filters out stream 2 once some stream has handled a record.
  \<open>testLogger3\<close> has a third stream.
\<close>

definition countingFilter ::
  "((string, TestWorld) Stream \<Rightarrow> string LogRecord \<Rightarrow> bool) \<Rightarrow> (string, TestWorld) FilterFn" where
  "countingFilter g = (\<lambda>s r w. (g s r, w @ [(ref s, ''shouldFilterOut'')]))"

definition countingObfuscator ::
  "((string, TestWorld) Stream \<Rightarrow> string LogRecord \<Rightarrow> string LogRecord)
     \<Rightarrow> (string, TestWorld) ObfuscatorFn" where
  "countingObfuscator h = (\<lambda>s r w. (h s r, w @ [(ref s, ''obfuscate'')]))"

definition afterAnyHandle :: "(string, TestWorld) FilterFn" where
  "afterAnyHandle = (\<lambda>s r w. (ref s = 2 \<and> w \<noteq> [], w))"

definition testLogger3 ::
  "Level \<Rightarrow> (string, TestWorld) FilterFn list \<Rightarrow> (string, TestWorld) ObfuscatorFn list
     \<Rightarrow> (string, TestWorld) Logger" where
  "testLogger3 lvl fs obs =
     \<lparr>minLevel = lvl, streams = [TestStream 1, TestStream 2, TestStream 3], filters = fs,
      triggers = [], obfuscators = obs, streamAdded = True, meta = testMeta\<rparr>"

section \<open>Reading the state of the file sink\<close>

text \<open>The numbered backups \<open>filename.1 \<dots> filename.N\<close> that exist.\<close>

definition numberedBackups :: "Deno \<Rightarrow> string \<Rightarrow> nat \<Rightarrow> nat list" where
  "numberedBackups d f N = filter (\<lambda>i. exists d (f @ ''.'' @ numToString i)) [1..<Suc N]"

text \<open>
  The bytes that have gone through the sink's buffered writer since the file was
  opened, those already in the file first, then those still in the buffer.
\<close>

definition fileBytes :: "Deno \<Rightarrow> string \<Rightarrow> string" where
  "fileBytes d p = (case files d p of None \<Rightarrow> [] | Some c \<Rightarrow> c)"

definition throughBuffer :: "('a, 'rs) FileStream \<Rightarrow> string" where
  "throughBuffer st =
     (case buffer st of
        None \<Rightarrow> []
      | Some bw \<Rightarrow> fileBytes (deno st) (writer bw) @ usedBuffer bw)"

text \<open>A call that has used up its bound without returning.\<close>

definition outOfFuel :: "'s result \<Rightarrow> bool" where
  "outOfFuel r = (case r of Ok s \<Rightarrow> False | Err e s \<Rightarrow> e = OutOfFuel)"

text \<open>
  No record in the queue makes \<^verbatim>\<open>log\<close> rotate: the buffer size is 0, or there is no
  strategy, or the strategy answers false for the encoded line of every queued record.
\<close>

definition noRotationDue :: "('a, 'rs) FileStream \<Rightarrow> bool" where
  "noRotationDue st =
     (maxBufferSize st = 0 \<or>
      (case rotationStrategy st of
         None \<Rightarrow> True
       | Some rs \<Rightarrow> list_all (\<lambda>r. \<not> shouldRotate rs (state rs) (format st r @ [CHR 0x0A]))
                     (deferredLogQueue st)))"

text \<open>The encoded lines of a list of records, in order.\<close>

definition encodedLines :: "('a, 'rs) FileStream \<Rightarrow> 'a LogRecord list \<Rightarrow> string" where
  "encodedLines st rs = concat (map (\<lambda>r. format st r @ [CHR 0x0A]) rs)"

text \<open>The writes to the buffered writer among the recorded calls.\<close>

definition isWrite :: "op \<Rightarrow> bool" where
  "isWrite x = (case x of WriteSync b \<Rightarrow> True | _ \<Rightarrow> False)"

section \<open>Fixtures for the file sink\<close>

text \<open>
  A directory holding \<^verbatim>\<open>log.txt.1\<close> to \<^verbatim>\<open>log.txt.5\<close>; a byte strategy that keeps 2
  files; age branches that do nothing; a sink on \<^verbatim>\<open>log.txt\<close> whose formatter is the
  message itself.
\<close>

definition fiveBackups :: Deno where
  "fiveBackups =
     \<lparr>files = [''log.txt.1'' \<mapsto> ''one'', ''log.txt.2'' \<mapsto> ''two'', ''log.txt.3'' \<mapsto> ''three'',
               ''log.txt.4'' \<mapsto> ''four'', ''log.txt.5'' \<mapsto> ''five''],
      microtasks = 0, ops = []\<rparr>"

definition emptyDir :: Deno where
  "emptyDir = \<lparr>files = Map.empty, microtasks = 0, ops = []\<rparr>"

definition noAge :: AgeBranches where
  "noAge = \<lparr>ageInitLogs = (\<lambda>rs f i d. Ok d), ageMaxFiles = (\<lambda>rs f d. 0)\<rparr>"

definition everyBytes :: "nat \<Rightarrow> nat \<Rightarrow> ByteRotationStrategy" where
  "everyBytes mb keep =
     \<lparr>maxBytes = mb, logFileRetentionPolicy = \<lparr>quantity = keep, ptype = FilesT\<rparr>,
      currentFileSize = 0\<rparr>"

definition testSink ::
  "LogFileInitStrategy \<Rightarrow> ByteRotationStrategy \<Rightarrow> Deno \<Rightarrow> (string, ByteRotationStrategy) FileStream" where
  "testSink mode rs d =
     withLogFileInitMode
       (withLogFileRotation (newFileStream ''log.txt'' 10 msg d) (byteStrategy noAge rs)) mode"

text \<open>
  The sink after \<^verbatim>\<open>withBufferSize(sz)\<close>, \<^verbatim>\<open>withLogFileRotation\<close> and \<^verbatim>\<open>setup()\<close> in
  an empty directory, in the default init mode.
\<close>

definition openSink :: "nat \<Rightarrow> ByteRotationStrategy \<Rightarrow> (string, ByteRotationStrategy) FileStream" where
  "openSink sz rs =
     (case withBufferSize (testSink Append rs emptyDir) (int sz) of
        Ok st \<Rightarrow> (case FileStream_setup id st of Ok st' \<Rightarrow> st' | Err e st' \<Rightarrow> st')
      | Err e st \<Rightarrow> st)"

text \<open>The directory of \<open>fiveBackups\<close> after \<^verbatim>\<open>setup\<close> in overwrite mode with a policy of 2 files.\<close>

definition sweptBackups :: Deno where
  "sweptBackups =
     \<lparr>files = [''log.txt.3'' \<mapsto> ''three'', ''log.txt.4'' \<mapsto> ''four'', ''log.txt.5'' \<mapsto> ''five'',
               ''log.txt'' \<mapsto> []],
      microtasks = 0,
      ops = [RemoveSync ''log.txt.1'', RemoveSync ''log.txt.2'', OpenSync ''log.txt'']\<rparr>"

text \<open>
  The sink after three records of level 40 have been handled in one turn: they are
  queued and one drain is scheduled.
\<close>

definition threeQueued :: "(string, ByteRotationStrategy) FileStream" where
  "threeQueued =
     (openSink 8192 (everyBytes 10 7))
       \<lparr>deferredLogQueue := [ImmutableLogRecord ''a'' [] 40 0, ImmutableLogRecord ''b'' [] 40 0,
                             ImmutableLogRecord ''request timed out'' [] 40 0],
        deno := \<lparr>files = [''log.txt'' \<mapsto> []], microtasks = 1,
                  ops = [OpenSync ''log.txt'', QueueMicrotask]\<rparr>\<rparr>"

section \<open>Properties of the dispatch engine\<close>

subsection \<open>The stream loop\<close>

text \<open>
  An emit call that passes the level gate resolves the message, calls the triggers and
  runs the stream loop from position 0 on the record it has built.
\<close>

lemma logToStreams_passes:
  assumes "\<not> minLevel lg > lvl"
  shows "\<exists>v w0 t0 w1 t1 r2 w2 t2.
           (case m of Fn f \<Rightarrow> f w = (v, w0) \<and> t0 = [MsgCall] | Val x \<Rightarrow> v = x \<and> w0 = w \<and> t0 = [])
         \<and> checkTriggers 0 (triggers lg) (ImmutableLogRecord v md lvl now) w0 = (w1, t1)
         \<and> processStreams 0 (filters lg) (obfuscators lg) (streams lg)
               (ImmutableLogRecord v md lvl now) w1 = (r2, w2, t2)
         \<and> logToStreams lg lvl m md now w = (Some v, w2, t0 @ t1 @ t2)"
  using assms by (cases m) (auto simp: logToStreams_def Let_def split: prod.splits)

lemmas test_defs = TestStream_def skipStream_def neverSkip_def redactFor_def testMeta_def
  testLogger_def testLevels_def ImmutableLogRecord_def

lemma processStreams_append:
  "processStreams i fs obs (xs @ ys) r w =
     (let (r1, w1, t1) = processStreams i fs obs xs r w;
          (r2, w2, t2) = processStreams (i + length xs) fs obs ys r1 w1
      in (r2, w2, t1 @ t2))"
  by (induction xs arbitrary: i r w) (auto split: prod.splits)

lemma applyFilters_pass:
  "applyFilters i j fs s r w = (False, w', tr) \<Longrightarrow>
     tr = map (\<lambda>n. ShouldFilterOut i n r False) [j..<j + length fs]"
proof (induction fs arbitrary: j w tr)
  case Nil
  then show ?case by simp
next
  case (Cons f fs)
  obtain b w1 where f: "f s r w = (b, w1)" by (cases "f s r w")
  obtain sk w2 t2 where rec: "applyFilters i (Suc j) fs s r w1 = (sk, w2, t2)"
    by (cases "applyFilters i (Suc j) fs s r w1")
  from Cons.prems f rec have "\<not> b" "\<not> sk" "w2 = w'" "tr = ShouldFilterOut i j r False # t2"
    by (auto split: if_splits)
  with Cons.IH[of "Suc j" w1 t2] rec show ?case
    by (simp add: upt_conv_Cons del: upt_Suc)
qed

lemma applyFilters_skip:
  "applyFilters i j fs s r w = (True, w', tr) \<Longrightarrow>
     \<exists>k<length fs. tr = map (\<lambda>n. ShouldFilterOut i n r False) [j..<j + k]
                        @ [ShouldFilterOut i (j + k) r True]"
proof (induction fs arbitrary: j w tr)
  case Nil
  then show ?case by simp
next
  case (Cons f fs)
  obtain b w1 where f: "f s r w = (b, w1)" by (cases "f s r w")
  show ?case
  proof (cases b)
    case True
    with Cons.prems f have "tr = [ShouldFilterOut i j r True]" by auto
    then show ?thesis by (intro exI[of _ 0]) simp
  next
    case False
    obtain sk w2 t2 where rec: "applyFilters i (Suc j) fs s r w1 = (sk, w2, t2)"
      by (cases "applyFilters i (Suc j) fs s r w1")
    with Cons.prems f False have eq: "sk" "w2 = w'" "tr = ShouldFilterOut i j r False # t2"
      by auto
    from Cons.IH[of "Suc j" w1 t2] rec eq obtain k where
      k: "k < length fs" "t2 = map (\<lambda>n. ShouldFilterOut i n r False) [Suc j..<Suc j + k]
              @ [ShouldFilterOut i (Suc j + k) r True]" by auto
    show ?thesis
      using k eq by (intro exI[of _ "Suc k"]) (simp add: upt_conv_Cons del: upt_Suc)
  qed
qed

lemma applyFilters_True_mem:
  assumes "applyFilters i j fs s r w = (skip, w', tr)"
      and "ShouldFilterOut i' k r' True \<in> set tr"
    shows "skip \<and> tr = map (\<lambda>n. ShouldFilterOut i n r False) [j..<k]
                        @ [ShouldFilterOut i k r True] \<and> j \<le> k \<and> k < j + length fs"
proof (cases skip)
  case False
  with applyFilters_pass[of i j fs s r w w' tr] assms show ?thesis by auto
next
  case True
  with applyFilters_skip[of i j fs s r w w' tr] assms(1) obtain n where
    n: "n < length fs" "tr = map (\<lambda>n. ShouldFilterOut i n r False) [j..<j + n]
                        @ [ShouldFilterOut i (j + n) r True]" by auto
  with assms(2) have "k = j + n" by auto
  with n True show ?thesis by simp
qed

lemma applyFilters_streamOf:
  "applyFilters i j fs s r w = (skip, w', tr) \<Longrightarrow> c \<in> set tr \<Longrightarrow> streamOf c = Some i"
  by (induction fs arbitrary: j w tr) (auto split: prod.splits if_splits)

lemma applyObfuscators_streamOf:
  "applyObfuscators i j obs s r w = (r', w', tr) \<Longrightarrow> c \<in> set tr \<Longrightarrow> streamOf c = Some i"
  by (induction obs arbitrary: j r w tr) (auto split: prod.splits)

lemma processStream_streamOf:
  "processStream i fs obs s r w = (r', w', tr) \<Longrightarrow> c \<in> set tr \<Longrightarrow> streamOf c = Some i"
  by (auto simp: processStream_def split: prod.splits if_splits
      dest: applyFilters_streamOf applyObfuscators_streamOf)

lemma processStreams_streamOf:
  "processStreams i fs obs ss r w = (r', w', tr) \<Longrightarrow> c \<in> set tr \<Longrightarrow>
     \<exists>k. streamOf c = Some k \<and> i \<le> k \<and> k < i + length ss"
proof (induction ss arbitrary: i r w r' w' tr)
  case Nil
  then show ?case by simp
next
  case (Cons s ss)
  obtain r1 w1 t1 where a: "processStream i fs obs s r w = (r1, w1, t1)"
    by (cases "processStream i fs obs s r w")
  obtain r2 w2 t2 where b: "processStreams (Suc i) fs obs ss r1 w1 = (r2, w2, t2)"
    by (cases "processStreams (Suc i) fs obs ss r1 w1")
  from Cons.prems a b have "c \<in> set t1 \<or> c \<in> set t2" by auto
  then show ?case
  proof
    assume "c \<in> set t1"
    from processStream_streamOf[OF a this] show ?thesis by simp
  next
    assume "c \<in> set t2"
    from Cons.IH[OF b this] show ?thesis by auto
  qed
qed

lemma callsAt_append: "callsAt i (xs @ ys) = callsAt i xs @ callsAt i ys"
  by (simp add: callsAt_def)

lemma callsAt_other:
  "\<forall>c\<in>set tr. \<exists>k. streamOf c = Some k \<and> k \<noteq> i \<Longrightarrow> callsAt i tr = []"
  by (auto simp: callsAt_def filter_empty_conv)

lemma callsAt_same:
  "\<forall>c\<in>set tr. streamOf c = Some i \<Longrightarrow> callsAt i tr = tr"
  by (simp add: callsAt_def)

subsection \<open>The level gate\<close>

text \<open>
  Claim C3. A call of \<^verbatim>\<open>log\<close>, \<^verbatim>\<open>debug\<close>, \<^verbatim>\<open>info\<close>, \<^verbatim>\<open>warning\<close>,
  \<^verbatim>\<open>error\<close> or \<^verbatim>\<open>critical\<close> whose level is strictly below the logger's minimum
  level returns \<^verbatim>\<open>undefined\<close> (\<open>None\<close>) for a supplier and the value itself for a
  value; the world is the one before the call, so the supplier has not run, and no
  call at all is made: no trigger, filter, obfuscator or \<^verbatim>\<open>handle\<close>.
\<close>

theorem lazy_level_gate:
  "(lvl < minLevel lg \<longrightarrow>
      log lg lvl m md now w = ((case m of Fn f \<Rightarrow> None | Val v \<Rightarrow> Some v), w, []))
   \<and> (DEBUG L < minLevel lg \<longrightarrow>
      debug L lg m md now w = ((case m of Fn f \<Rightarrow> None | Val v \<Rightarrow> Some v), w, []))
   \<and> (INFO L < minLevel lg \<longrightarrow>
      info L lg m md now w = ((case m of Fn f \<Rightarrow> None | Val v \<Rightarrow> Some v), w, []))
   \<and> (WARNING L < minLevel lg \<longrightarrow>
      warning L lg m md now w = ((case m of Fn f \<Rightarrow> None | Val v \<Rightarrow> Some v), w, []))
   \<and> (ERROR L < minLevel lg \<longrightarrow>
      error L lg m md now w = ((case m of Fn f \<Rightarrow> None | Val v \<Rightarrow> Some v), w, []))
   \<and> (CRITICAL L < minLevel lg \<longrightarrow>
      critical L lg m md now w = ((case m of Fn f \<Rightarrow> None | Val v \<Rightarrow> Some v), w, []))"
  by (cases m) (simp_all add: log_def debug_def info_def warning_def error_def critical_def
      logToStreams_def)

theorem lazy_level_gate_witness:
  "log (testLogger 60 [] []) 10 (Fn (\<lambda>w. (''costly'', w @ [(0, ''supplier'')]))) [] 0 []
     = (None, [], [])
   \<and> debug testLevels (testLogger 60 [] []) (Fn (\<lambda>w. (''costly'', w @ [(0, ''supplier'')]))) [] 0 []
     = (None, [], [])
   \<and> info testLevels (testLogger 60 [] []) (Fn (\<lambda>w. (''costly'', w @ [(0, ''supplier'')]))) [] 0 []
     = (None, [], [])
   \<and> warning testLevels (testLogger 60 [] []) (Fn (\<lambda>w. (''costly'', w @ [(0, ''supplier'')]))) [] 0 []
     = (None, [], [])
   \<and> error testLevels (testLogger 60 [] []) (Fn (\<lambda>w. (''costly'', w @ [(0, ''supplier'')]))) [] 0 []
     = (None, [], [])
   \<and> critical testLevels (testLogger 60 [] []) (Fn (\<lambda>w. (''costly'', w @ [(0, ''supplier'')]))) [] 0 []
     = (None, [], [])"
  using lazy_level_gate[of 10 "testLogger 60 [] []"
      "Fn (\<lambda>w. (''costly'', w @ [(0, ''supplier'')]))" "[]" 0 "[]" testLevels]
  by (simp add: test_defs)

subsection \<open>Filters\<close>

text \<open>
  Claim C8. Let \<open>s\<close> be the stream registered after the streams \<open>pre\<close>, reached with
  record \<open>r\<close>, and let filter \<open>k\<close> return "filter out" for it. Then the calls made for
  \<open>s\<close> are the filters \<open>0..k\<close> and nothing else: no later filter, no obfuscator, no
  \<^verbatim>\<open>handle\<close>; the record is unchanged, and the streams \<open>post\<close> registered after \<open>s\<close> are
  processed with it, from the world the last filter call left.
\<close>

theorem filter_short_circuit:
  assumes "processStreams 0 fs obs pre r0 w0 = (r, w, tp)"
      and "applyFilters (length pre) 0 fs s r w = (skip, w1, t1)"
      and "ShouldFilterOut (length pre) k r True \<in> set t1"
      and "processStreams (Suc (length pre)) fs obs post r w1 = (r', w', t)"
    shows "t1 = map (\<lambda>j. ShouldFilterOut (length pre) j r False) [0..<k]
                 @ [ShouldFilterOut (length pre) k r True]
         \<and> processStream (length pre) fs obs s r w = (r, w1, t1)
         \<and> processStreams 0 fs obs (pre @ s # post) r0 w0 = (r', w', tp @ t1 @ t)
         \<and> callsAt (length pre) (tp @ t1 @ t) = t1"
proof -
  from applyFilters_True_mem[OF assms(2,3)] have
    sk: "skip" and t1: "t1 = map (\<lambda>j. ShouldFilterOut (length pre) j r False) [0..<k]
                 @ [ShouldFilterOut (length pre) k r True]" by auto
  from sk assms(2) have ps: "processStream (length pre) fs obs s r w = (r, w1, t1)"
    by (simp add: processStream_def)
  from ps assms(1,4) have whole:
    "processStreams 0 fs obs (pre @ s # post) r0 w0 = (r', w', tp @ t1 @ t)"
    by (simp add: processStreams_append)
  have "callsAt (length pre) tp = []"
    using processStreams_streamOf[OF assms(1)] by (intro callsAt_other) fastforce
  moreover have "callsAt (length pre) t1 = t1"
    using processStream_streamOf[OF ps] by (intro callsAt_same) blast
  moreover have "callsAt (length pre) t = []"
    using processStreams_streamOf[OF assms(4)] by (intro callsAt_other) fastforce
  ultimately have "callsAt (length pre) (tp @ t1 @ t) = t1"
    by (simp add: callsAt_append)
  with t1 ps whole show ?thesis by blast
qed

theorem filter_short_circuit_witness:
  "processStreams 0 [pureFilter (skipStream 1), pureFilter neverSkip] []
       [TestStream 1, TestStream 2] (ImmutableLogRecord ''Filter out'' [] 20 0) []
     = (ImmutableLogRecord ''Filter out'' [] 20 0, [(2, ''Filter out'')],
        [ShouldFilterOut 0 0 (ImmutableLogRecord ''Filter out'' [] 20 0) True,
         ShouldFilterOut 1 0 (ImmutableLogRecord ''Filter out'' [] 20 0) False,
         ShouldFilterOut 1 1 (ImmutableLogRecord ''Filter out'' [] 20 0) False,
         Handle 1 (ImmutableLogRecord ''Filter out'' [] 20 0)])"
  using filter_short_circuit[of "[pureFilter (skipStream 1), pureFilter neverSkip]" "[]" "[]"
      "ImmutableLogRecord ''Filter out'' [] 20 0" "[]"
      "ImmutableLogRecord ''Filter out'' [] 20 0" "[]" "[]" "TestStream 1" True "[]"
      "[ShouldFilterOut 0 0 (ImmutableLogRecord ''Filter out'' [] 20 0) True]" 0
      "[TestStream 2]" "ImmutableLogRecord ''Filter out'' [] 20 0" "[(2, ''Filter out'')]"
      "[ShouldFilterOut 1 0 (ImmutableLogRecord ''Filter out'' [] 20 0) False,
        ShouldFilterOut 1 1 (ImmutableLogRecord ''Filter out'' [] 20 0) False,
        Handle 1 (ImmutableLogRecord ''Filter out'' [] 20 0)]"]
  by (simp add: test_defs pureFilter_def processStream_def)

subsection \<open>Obfuscation is carried to the following streams\<close>

lemma checkTriggers_streamOf:
  "checkTriggers i ts r w = (w', tr) \<Longrightarrow> c \<in> set tr \<Longrightarrow> streamOf c = None"
  by (induction ts arbitrary: i w w' tr) (auto split: prod.splits)

text \<open>
  An emit call that passes the gate runs the stream loop on the record built from the
  resolved message; the calls before the loop concern no stream.
\<close>

lemma logToStreams_streams:
  assumes "\<not> minLevel lg > lvl"
  shows "\<exists>r' w1 w2 t01 t2.
           processStreams 0 (filters lg) (obfuscators lg) (streams lg)
             (ImmutableLogRecord (resolved m w) md lvl now) w1 = (r', w2, t2)
         \<and> snd (snd (logToStreams lg lvl m md now w)) = t01 @ t2
         \<and> (\<forall>c\<in>set t01. streamOf c = None)"
proof -
  from logToStreams_passes[OF assms, where m = m and w = w and md = md and now = now] obtain v w0 t0 w1 t1 r2 w2 t2 where
    m: "case m of Fn f \<Rightarrow> f w = (v, w0) \<and> t0 = [MsgCall] | Val x \<Rightarrow> v = x \<and> w0 = w \<and> t0 = []"
    and ct: "checkTriggers 0 (triggers lg) (ImmutableLogRecord v md lvl now) w0 = (w1, t1)"
    and ps: "processStreams 0 (filters lg) (obfuscators lg) (streams lg)
               (ImmutableLogRecord v md lvl now) w1 = (r2, w2, t2)"
    and lt: "logToStreams lg lvl m md now w = (Some v, w2, t0 @ t1 @ t2)" by blast
  from m have v: "v = resolved m w" and t0: "\<forall>c\<in>set t0. streamOf c = None"
    by (auto simp: resolved_def split: Msg.splits)
  from checkTriggers_streamOf[OF ct] t0 have "\<forall>c\<in>set (t0 @ t1). streamOf c = None" by auto
  with ps lt v show ?thesis by (intro exI[of _ r2] exI[of _ w1] exI[of _ w2] exI[of _ "t0 @ t1"] exI[of _ t2]) simp
qed

lemma callsAt_none: "\<forall>c\<in>set tr. streamOf c = None \<Longrightarrow> callsAt i tr = []"
  by (auto simp: callsAt_def filter_empty_conv)

lemma applyObfuscators_chain:
  "applyObfuscators i j obs s r w = (r', w', tr) \<Longrightarrow>
     obfuscatorChain i j tr r r' \<and> length tr = length obs"
proof (induction obs arbitrary: j r w tr r' w')
  case Nil
  then show ?case by simp
next
  case (Cons ob obs)
  obtain r1 w1 where ob: "ob s r w = (r1, w1)" by (cases "ob s r w")
  obtain r2 w2 t2 where rec: "applyObfuscators i (Suc j) obs s r1 w1 = (r2, w2, t2)"
    by (cases "applyObfuscators i (Suc j) obs s r1 w1")
  from Cons.prems ob rec have "tr = Obfuscate i j r r1 # t2" "r' = r2" by auto
  with Cons.IH[OF rec] show ?case by simp
qed

lemma applyObfuscators_unchanged:
  "applyObfuscators i j obs s r w = (r', w', tr) \<Longrightarrow>
     (\<forall>k n x y. Obfuscate k n x y \<in> set tr \<longrightarrow> y = x) \<Longrightarrow> r' = r"
proof (induction obs arbitrary: j r w tr r' w')
  case Nil
  then show ?case by simp
next
  case (Cons ob obs)
  obtain r1 w1 where ob: "ob s r w = (r1, w1)" by (cases "ob s r w")
  obtain r2 w2 t2 where rec: "applyObfuscators i (Suc j) obs s r1 w1 = (r2, w2, t2)"
    by (cases "applyObfuscators i (Suc j) obs s r1 w1")
  from Cons.prems(1) ob rec have tr: "tr = Obfuscate i j r r1 # t2" and r': "r' = r2" by auto
  from tr Cons.prems(2) have "r1 = r" "\<forall>k n x y. Obfuscate k n x y \<in> set t2 \<longrightarrow> y = x" by auto
  with Cons.IH[OF rec] r' show ?case by simp
qed

lemma processStream_unchanged:
  assumes "processStream i fs obs s r w = (r', w', tr)"
      and "\<forall>k n x y. Obfuscate k n x y \<in> set tr \<longrightarrow> y = x"
  shows "r' = r"
proof -
  obtain sk w1 t1 where f: "applyFilters i 0 fs s r w = (sk, w1, t1)"
    by (cases "applyFilters i 0 fs s r w")
  show ?thesis
  proof (cases sk)
    case True
    with assms(1) f show ?thesis by (simp add: processStream_def)
  next
    case False
    obtain r2 w2 t2 where ob: "applyObfuscators i 0 obs s r w1 = (r2, w2, t2)"
      by (cases "applyObfuscators i 0 obs s r w1")
    with False assms(1) f have "tr = t1 @ t2 @ [Handle i r2]" "r' = r2"
      by (auto simp: processStream_def)
    with assms(2) applyObfuscators_unchanged[OF ob] show ?thesis by auto
  qed
qed

lemma processStreams_unchanged:
  "processStreams i fs obs ss r w = (r', w', tr) \<Longrightarrow>
     (\<forall>k n x y. Obfuscate k n x y \<in> set tr \<longrightarrow> y = x) \<Longrightarrow> r' = r"
proof (induction ss arbitrary: i r w r' w' tr)
  case Nil
  then show ?case by simp
next
  case (Cons s ss)
  obtain r1 w1 t1 where a: "processStream i fs obs s r w = (r1, w1, t1)"
    by (cases "processStream i fs obs s r w")
  obtain r2 w2 t2 where b: "processStreams (Suc i) fs obs ss r1 w1 = (r2, w2, t2)"
    by (cases "processStreams (Suc i) fs obs ss r1 w1")
  from Cons.prems(1) a b have tr: "tr = t1 @ t2" and r': "r' = r2" by auto
  from tr Cons.prems(2) have u1: "\<forall>k n x y. Obfuscate k n x y \<in> set t1 \<longrightarrow> y = x"
    and u2: "\<forall>k n x y. Obfuscate k n x y \<in> set t2 \<longrightarrow> y = x" by auto
  from processStream_unchanged[OF a u1] Cons.IH[OF b u2] r' show ?case by simp
qed

text \<open>
  The calls of one cycle in which no filter answered "filter out": every filter, called
  with the incoming record, then the obfuscator chain from that record, then
  \<^verbatim>\<open>handle\<close> with the result of the chain, which is the record that goes on.
\<close>

lemma processStream_not_skipped:
  assumes "processStream i fs obs s r w = (r', w', tr)"
      and "\<forall>j x. ShouldFilterOut i j x True \<notin> set tr"
  shows "\<exists>oc. tr = map (\<lambda>j. ShouldFilterOut i j r False) [0..<length fs] @ oc @ [Handle i r']
             \<and> obfuscatorChain i 0 oc r r' \<and> length oc = length obs"
proof -
  obtain sk w1 t1 where f: "applyFilters i 0 fs s r w = (sk, w1, t1)"
    by (cases "applyFilters i 0 fs s r w")
  have "\<not> sk"
  proof
    assume sk
    with f assms(1) have "tr = t1" by (simp add: processStream_def)
    moreover from applyFilters_skip[of i 0 fs s r w w1 t1] f \<open>sk\<close> obtain k where
      "t1 = map (\<lambda>n. ShouldFilterOut i n r False) [0..<0 + k] @ [ShouldFilterOut i (0 + k) r True]"
      by auto
    ultimately have "ShouldFilterOut i (0 + k) r True \<in> set tr" by simp
    with assms(2) show False by blast
  qed
  obtain r2 w2 t2 where ob: "applyObfuscators i 0 obs s r w1 = (r2, w2, t2)"
    by (cases "applyObfuscators i 0 obs s r w1")
  from \<open>\<not> sk\<close> f ob assms(1) have tr: "tr = t1 @ t2 @ [Handle i r2]" and r': "r' = r2"
    by (auto simp: processStream_def)
  from applyFilters_pass[of i 0 fs s r w w1 t1] f \<open>\<not> sk\<close>
  have t1: "t1 = map (\<lambda>n. ShouldFilterOut i n r False) [0..<length fs]" by simp
  from applyObfuscators_chain[OF ob] tr r' t1 show ?thesis by auto
qed

text \<open>
  Claim C1, as stated, fails in two ways. With an obfuscator that rewrites the message
  for stream 2 only, the obfuscator chain of stream 1 returns the record unchanged, and
  \<^verbatim>\<open>handle\<close> of stream 2 receives the rewritten record, not the one stream 1's chain
  produced. With three streams and an obfuscator that rewrites for the middle one only,
  the filter called for the third stream receives the rewritten record, not the one the
  first stream's chain produced.
\<close>

theorem obfuscation_accumulates_counterexample:
  "snd (snd (logToStreams (testLogger 10 [] [pureObfuscator (redactFor 2)])
       10 (Val ''obfuscate'') [] 0 []))
     = [Obfuscate 0 0 (ImmutableLogRecord ''obfuscate'' [] 10 0)
                      (ImmutableLogRecord ''obfuscate'' [] 10 0),
        Handle 0 (ImmutableLogRecord ''obfuscate'' [] 10 0),
        Obfuscate 1 0 (ImmutableLogRecord ''obfuscate'' [] 10 0)
                      (ImmutableLogRecord ''*********'' [] 10 0),
        Handle 1 (ImmutableLogRecord ''*********'' [] 10 0)]
   \<and> snd (snd (logToStreams (testLogger3 10 [pureFilter neverSkip] [pureObfuscator (redactFor 2)])
       10 (Val ''obfuscate'') [] 0 []))
     = [ShouldFilterOut 0 0 (ImmutableLogRecord ''obfuscate'' [] 10 0) False,
        Obfuscate 0 0 (ImmutableLogRecord ''obfuscate'' [] 10 0)
                      (ImmutableLogRecord ''obfuscate'' [] 10 0),
        Handle 0 (ImmutableLogRecord ''obfuscate'' [] 10 0),
        ShouldFilterOut 1 0 (ImmutableLogRecord ''obfuscate'' [] 10 0) False,
        Obfuscate 1 0 (ImmutableLogRecord ''obfuscate'' [] 10 0)
                      (ImmutableLogRecord ''*********'' [] 10 0),
        Handle 1 (ImmutableLogRecord ''*********'' [] 10 0),
        ShouldFilterOut 2 0 (ImmutableLogRecord ''*********'' [] 10 0) False,
        Obfuscate 2 0 (ImmutableLogRecord ''*********'' [] 10 0)
                      (ImmutableLogRecord ''*********'' [] 10 0),
        Handle 2 (ImmutableLogRecord ''*********'' [] 10 0)]
   \<and> ImmutableLogRecord ''obfuscate'' [] 10 0 \<noteq> ImmutableLogRecord ''*********'' [] (10::int) 0"
  by (simp add: test_defs testLogger3_def logToStreams_def processStream_def pureFilter_def
      pureObfuscator_def Let_def)

text \<open>
  Claim C1, amended. In an emit call that passes the level gate, let stream \<open>s1\<close> be
  registered before stream \<open>s2\<close>, let no filter answer "filter out" for either, and let
  no obfuscator call made for a stream between them change the record. Then the calls
  that concern \<open>s1\<close> are all its filters, its obfuscator chain and \<^verbatim>\<open>handle\<close> with the
  record \<open>r1\<close> the chain produced; and the calls that concern \<open>s2\<close> are every filter,
  called with \<open>r1\<close>, the obfuscator chain of \<open>s2\<close>, starting from \<open>r1\<close>, and
  \<^verbatim>\<open>handle\<close> with the record \<open>r2\<close> that the chain of \<open>s2\<close> makes of \<open>r1\<close>.
\<close>

theorem obfuscation_carried_forward:
  assumes gate: "\<not> minLevel lg > lvl"
      and ss: "streams lg = pre @ s1 # mid @ s2 # post"
      and n1: "\<forall>j x. ShouldFilterOut (length pre) j x True
                 \<notin> set (snd (snd (logToStreams lg lvl m md now w)))"
      and n2: "\<forall>j x. ShouldFilterOut (Suc (length pre + length mid)) j x True
                 \<notin> set (snd (snd (logToStreams lg lvl m md now w)))"
      and between: "\<forall>k j x y. length pre < k \<and> k < Suc (length pre + length mid)
                 \<and> Obfuscate k j x y \<in> set (snd (snd (logToStreams lg lvl m md now w)))
                 \<longrightarrow> y = x"
  shows "\<exists>r r1 r2 oc1 oc2.
           callsAt (length pre) (snd (snd (logToStreams lg lvl m md now w)))
             = map (\<lambda>j. ShouldFilterOut (length pre) j r False) [0..<length (filters lg)]
                 @ oc1 @ [Handle (length pre) r1]
         \<and> obfuscatorChain (length pre) 0 oc1 r r1 \<and> length oc1 = length (obfuscators lg)
         \<and> callsAt (Suc (length pre + length mid)) (snd (snd (logToStreams lg lvl m md now w)))
             = map (\<lambda>j. ShouldFilterOut (Suc (length pre + length mid)) j r1 False)
                   [0..<length (filters lg)]
                 @ oc2 @ [Handle (Suc (length pre + length mid)) r2]
         \<and> obfuscatorChain (Suc (length pre + length mid)) 0 oc2 r1 r2
         \<and> length oc2 = length (obfuscators lg)"
proof -
  let ?a = "length pre" and ?b = "Suc (length pre + length mid)"
  let ?fs = "filters lg" and ?obs = "obfuscators lg"
  let ?tr = "snd (snd (logToStreams lg lvl m md now w))"
  from logToStreams_streams[OF gate, of m w md now] ss obtain rf w1 wf t01 t2 where
    run: "processStreams 0 ?fs ?obs (pre @ s1 # mid @ s2 # post)
            (ImmutableLogRecord (resolved m w) md lvl now) w1 = (rf, wf, t2)"
    and tr: "?tr = t01 @ t2" and t01: "\<forall>c\<in>set t01. streamOf c = None" by auto
  obtain r wp tp where p: "processStreams 0 ?fs ?obs pre
      (ImmutableLogRecord (resolved m w) md lvl now) w1 = (r, wp, tp)"
    by (cases "processStreams 0 ?fs ?obs pre (ImmutableLogRecord (resolved m w) md lvl now) w1")
  obtain r1 wa c1 where a: "processStream ?a ?fs ?obs s1 r wp = (r1, wa, c1)"
    by (cases "processStream ?a ?fs ?obs s1 r wp")
  obtain rm wm tm where mm: "processStreams (Suc ?a) ?fs ?obs mid r1 wa = (rm, wm, tm)"
    by (cases "processStreams (Suc ?a) ?fs ?obs mid r1 wa")
  obtain r2 wb c2 where b: "processStream ?b ?fs ?obs s2 rm wm = (r2, wb, c2)"
    by (cases "processStream ?b ?fs ?obs s2 rm wm")
  obtain r3 w3 t3 where q: "processStreams (Suc ?b) ?fs ?obs post r2 wb = (r3, w3, t3)"
    by (cases "processStreams (Suc ?b) ?fs ?obs post r2 wb")
  from run p a mm b q have t2: "t2 = tp @ c1 @ tm @ c2 @ t3"
    by (simp add: processStreams_append)
  have sub: "set c1 \<subseteq> set ?tr" "set tm \<subseteq> set ?tr" "set c2 \<subseteq> set ?tr"
    using tr t2 by auto
  have "callsAt ?a t01 = []" "callsAt ?b t01 = []" using t01 by (simp_all add: callsAt_none)
  moreover have "callsAt ?a tp = []" "callsAt ?b tp = []"
    using processStreams_streamOf[OF p] by (intro callsAt_other; fastforce)+
  moreover have "callsAt ?a c1 = c1"
    using processStream_streamOf[OF a] by (intro callsAt_same) blast
  moreover have "callsAt ?b c1 = []"
    using processStream_streamOf[OF a] by (intro callsAt_other) fastforce
  moreover have "callsAt ?a tm = []" "callsAt ?b tm = []"
    using processStreams_streamOf[OF mm] by (intro callsAt_other; fastforce)+
  moreover have "callsAt ?a c2 = []"
    using processStream_streamOf[OF b] by (intro callsAt_other) fastforce
  moreover have "callsAt ?b c2 = c2"
    using processStream_streamOf[OF b] by (intro callsAt_same) blast
  moreover have "callsAt ?a t3 = []" "callsAt ?b t3 = []"
    using processStreams_streamOf[OF q] by (intro callsAt_other; fastforce)+
  ultimately have at: "callsAt ?a ?tr = c1" "callsAt ?b ?tr = c2"
    using tr t2 by (simp_all add: callsAt_append)
  from n1 sub(1) have "\<forall>j x. ShouldFilterOut ?a j x True \<notin> set c1" by blast
  from processStream_not_skipped[OF a this] obtain oc1 where
    c1: "c1 = map (\<lambda>j. ShouldFilterOut ?a j r False) [0..<length ?fs] @ oc1 @ [Handle ?a r1]"
    and ch1: "obfuscatorChain ?a 0 oc1 r r1" "length oc1 = length ?obs" by blast
  have "\<forall>k n x y. Obfuscate k n x y \<in> set tm \<longrightarrow> y = x"
  proof (intro allI impI)
    fix k n x y
    assume mem: "Obfuscate k n x y \<in> set tm"
    from processStreams_streamOf[OF mm mem] have "?a < k \<and> k < ?b" by simp
    with between mem sub(2) show "y = x" by blast
  qed
  from processStreams_unchanged[OF mm this] have rm: "rm = r1" .
  from n2 sub(3) have "\<forall>j x. ShouldFilterOut ?b j x True \<notin> set c2" by blast
  from processStream_not_skipped[OF b this] rm obtain oc2 where
    c2: "c2 = map (\<lambda>j. ShouldFilterOut ?b j r1 False) [0..<length ?fs] @ oc2 @ [Handle ?b r2]"
    and ch2: "obfuscatorChain ?b 0 oc2 r1 r2" "length oc2 = length ?obs" by blast
  from at c1 ch1 c2 ch2 show ?thesis by blast
qed

lemma carried_forward_trace:
  "snd (snd (logToStreams
       (testLogger 10 [countingFilter neverSkip] [countingObfuscator (redactFor 1)])
       10 (Val ''obfuscate'') [] 0 []))
     = [ShouldFilterOut 0 0 (ImmutableLogRecord ''obfuscate'' [] 10 0) False,
        Obfuscate 0 0 (ImmutableLogRecord ''obfuscate'' [] 10 0)
                      (ImmutableLogRecord ''*********'' [] 10 0),
        Handle 0 (ImmutableLogRecord ''*********'' [] 10 0),
        ShouldFilterOut 1 0 (ImmutableLogRecord ''*********'' [] 10 0) False,
        Obfuscate 1 0 (ImmutableLogRecord ''*********'' [] 10 0)
                      (ImmutableLogRecord ''*********'' [] 10 0),
        Handle 1 (ImmutableLogRecord ''*********'' [] 10 0)]"
  by (simp add: test_defs logToStreams_def processStream_def countingFilter_def
      countingObfuscator_def Let_def)

theorem obfuscation_carried_forward_witness:
  "\<exists>r r1 r2 oc1 oc2.
     callsAt 0 (snd (snd (logToStreams
         (testLogger 10 [countingFilter neverSkip] [countingObfuscator (redactFor 1)])
         10 (Val ''obfuscate'') [] 0 [])))
       = map (\<lambda>j. ShouldFilterOut 0 j r False) [0..<1] @ oc1 @ [Handle 0 r1]
   \<and> obfuscatorChain 0 0 oc1 r r1 \<and> length oc1 = 1
   \<and> callsAt 1 (snd (snd (logToStreams
         (testLogger 10 [countingFilter neverSkip] [countingObfuscator (redactFor 1)])
         10 (Val ''obfuscate'') [] 0 [])))
       = map (\<lambda>j. ShouldFilterOut 1 j r1 False) [0..<1] @ oc2 @ [Handle 1 r2]
   \<and> obfuscatorChain 1 0 oc2 r1 r2 \<and> length oc2 = 1"
proof -
  let ?lg = "testLogger 10 [countingFilter neverSkip] [countingObfuscator (redactFor 1)]"
  have gate: "\<not> minLevel ?lg > 10" by (simp add: testLogger_def)
  have ss: "streams ?lg = [] @ TestStream 1 # [] @ TestStream 2 # []"
    by (simp add: testLogger_def)
  have n1: "\<forall>j x. ShouldFilterOut (length ([]::(string, TestWorld) Stream list)) j x True
              \<notin> set (snd (snd (logToStreams ?lg 10 (Val ''obfuscate'') [] 0 [])))"
    unfolding carried_forward_trace by simp
  have n2: "\<forall>j x. ShouldFilterOut
                (Suc (length ([]::(string, TestWorld) Stream list)
                      + length ([]::(string, TestWorld) Stream list))) j x True
              \<notin> set (snd (snd (logToStreams ?lg 10 (Val ''obfuscate'') [] 0 [])))"
    unfolding carried_forward_trace by simp
  have bt: "\<forall>k j x y. length ([]::(string, TestWorld) Stream list) < k
              \<and> k < Suc (length ([]::(string, TestWorld) Stream list)
                          + length ([]::(string, TestWorld) Stream list))
              \<and> Obfuscate k j x y \<in> set (snd (snd (logToStreams ?lg 10 (Val ''obfuscate'') [] 0 [])))
              \<longrightarrow> y = x"
    by simp
  from obfuscation_carried_forward[OF gate ss n1 n2 bt] show ?thesis
    by (simp add: testLogger_def)
qed

subsection \<open>What a skipped stream changes for the others\<close>

text \<open>
  With filters and obfuscators whose results depend on the stream and the record only,
  the loops make the expected calls and carry the expected record, whatever the
  callbacks do to the world.
\<close>

lemma applyFilters_result:
  "list_all2 filterResult fs gs \<Longrightarrow>
     \<exists>w'. applyFilters i j fs s r w = (filteredOut gs s r, w', filterCalls i j gs s r)"
proof (induction fs gs arbitrary: j w rule: list_all2_induct)
  case Nil
  then show ?case by (simp add: filteredOut_def)
next
  case (Cons f fs g gs)
  obtain b w1 where f: "f s r w = (b, w1)" by (cases "f s r w")
  with Cons.hyps(1) have b: "b = g s r" unfolding filterResult_def by (metis fst_conv)
  show ?case
  proof (cases b)
    case True
    with f b show ?thesis by (simp add: filteredOut_def)
  next
    case False
    from Cons.IH[of "Suc j" w1] obtain w2 where
      "applyFilters i (Suc j) fs s r w1 = (filteredOut gs s r, w2, filterCalls i (Suc j) gs s r)"
      by blast
    with False f b show ?thesis by (simp add: filteredOut_def)
  qed
qed

lemma applyObfuscators_result:
  "list_all2 obfuscatorResult obs hs \<Longrightarrow>
     \<exists>w'. applyObfuscators i j obs s r w = (obfuscated hs s r, w', obfuscatorCalls i j hs s r)"
proof (induction obs hs arbitrary: j r w rule: list_all2_induct)
  case Nil
  then show ?case by (simp add: obfuscated_def)
next
  case (Cons ob obs h hs)
  obtain r1 w1 where ob: "ob s r w = (r1, w1)" by (cases "ob s r w")
  with Cons.hyps(1) have r1: "r1 = h s r" unfolding obfuscatorResult_def by (metis fst_conv)
  from Cons.IH[of "Suc j" r1 w1] obtain w2 where
    "applyObfuscators i (Suc j) obs s r1 w1 = (obfuscated hs s r1, w2, obfuscatorCalls i (Suc j) hs s r1)"
    by blast
  with ob r1 show ?case by (simp add: obfuscated_def)
qed

lemma processStream_result:
  assumes "list_all2 filterResult fs gs" and "list_all2 obfuscatorResult obs hs"
  shows "\<exists>w'. processStream i fs obs s r w = (carriedOn gs hs s r, w', cycleCalls i gs hs s r)"
proof -
  from applyFilters_result[OF assms(1), of i 0 s r w] obtain w1 where
    f: "applyFilters i 0 fs s r w = (filteredOut gs s r, w1, filterCalls i 0 gs s r)" by blast
  from applyObfuscators_result[OF assms(2), of i 0 s r w1] obtain w2 where
    ob: "applyObfuscators i 0 obs s r w1 = (obfuscated hs s r, w2, obfuscatorCalls i 0 hs s r)"
    by blast
  from f ob show ?thesis by (simp add: processStream_def carriedOn_def cycleCalls_def)
qed

lemma processStreams_result:
  assumes "list_all2 filterResult fs gs" and "list_all2 obfuscatorResult obs hs"
  shows "\<exists>w'. processStreams i fs obs ss r w = (carried gs hs ss r, w', streamsCalls i gs hs ss r)"
proof (induction ss arbitrary: i r w)
  case Nil
  then show ?case by (simp add: carried_def)
next
  case (Cons s ss)
  from processStream_result[OF assms, of i s r w] obtain w1 where
    a: "processStream i fs obs s r w = (carriedOn gs hs s r, w1, cycleCalls i gs hs s r)" by blast
  from Cons[of "Suc i" "carriedOn gs hs s r" w1] obtain w2 where
    b: "processStreams (Suc i) fs obs ss (carriedOn gs hs s r) w1 =
          (carried gs hs ss (carriedOn gs hs s r), w2,
           streamsCalls (Suc i) gs hs ss (carriedOn gs hs s r))" by blast
  from a b show ?case by (simp add: carried_def)
qed

text \<open>
  So the calls of an emit call that concern a stream are those of the expected cycles.
\<close>

lemma emit_calls:
  assumes "\<not> minLevel lg > lvl"
      and "list_all2 filterResult (filters lg) gs"
      and "list_all2 obfuscatorResult (obfuscators lg) hs"
  shows "callsAt b (snd (snd (logToStreams lg lvl m md now w))) =
         callsAt b (streamsCalls 0 gs hs (streams lg)
                      (ImmutableLogRecord (resolved m w) md lvl now))"
proof -
  from logToStreams_streams[OF assms(1), where m = m and w = w and md = md and now = now]
  obtain rf w1 wf t01 t2 where
    run: "processStreams 0 (filters lg) (obfuscators lg) (streams lg)
            (ImmutableLogRecord (resolved m w) md lvl now) w1 = (rf, wf, t2)"
    and tr: "snd (snd (logToStreams lg lvl m md now w)) = t01 @ t2"
    and t01: "\<forall>c\<in>set t01. streamOf c = None" by blast
  from processStreams_result[OF assms(2,3), of 0 "streams lg"
      "ImmutableLogRecord (resolved m w) md lvl now" w1] run
  have "t2 = streamsCalls 0 gs hs (streams lg) (ImmutableLogRecord (resolved m w) md lvl now)"
    by auto
  with tr t01 show ?thesis by (simp add: callsAt_append callsAt_none)
qed

lemma filterCalls_streamOf: "c \<in> set (filterCalls i j gs s r) \<Longrightarrow> streamOf c = Some i"
  by (induction gs arbitrary: j) (auto split: if_splits)

lemma obfuscatorCalls_streamOf: "c \<in> set (obfuscatorCalls i j hs s r) \<Longrightarrow> streamOf c = Some i"
  by (induction hs arbitrary: j r) auto

lemma cycleCalls_streamOf: "c \<in> set (cycleCalls i gs hs s r) \<Longrightarrow> streamOf c = Some i"
  by (auto simp: cycleCalls_def split: if_splits
      dest: filterCalls_streamOf obfuscatorCalls_streamOf)

lemma streamsCalls_streamOf:
  "c \<in> set (streamsCalls i gs hs ss r) \<Longrightarrow> \<exists>k. streamOf c = Some k \<and> i \<le> k \<and> k < i + length ss"
proof (induction ss arbitrary: i r)
  case Nil
  then show ?case by simp
next
  case (Cons s ss)
  from Cons.prems have "c \<in> set (cycleCalls i gs hs s r)
      \<or> c \<in> set (streamsCalls (Suc i) gs hs ss (carriedOn gs hs s r))" by auto
  then show ?case
  proof
    assume "c \<in> set (cycleCalls i gs hs s r)"
    from cycleCalls_streamOf[OF this] show ?thesis by simp
  next
    assume "c \<in> set (streamsCalls (Suc i) gs hs ss (carriedOn gs hs s r))"
    from Cons.IH[OF this] show ?thesis by auto
  qed
qed

lemma carried_append: "carried gs hs (xs @ ys) r = carried gs hs ys (carried gs hs xs r)"
  by (simp add: carried_def)

lemma streamsCalls_append:
  "streamsCalls i gs hs (xs @ ys) r =
     streamsCalls i gs hs xs r @ streamsCalls (i + length xs) gs hs ys (carried gs hs xs r)"
  by (induction xs arbitrary: i r) (simp_all add: carried_def)

lemma filterCalls_cong:
  "map (\<lambda>g. g s r) gs = map (\<lambda>g. g s r) gs' \<Longrightarrow> filterCalls i j gs s r = filterCalls i j gs' s r"
proof (induction gs arbitrary: gs' j)
  case Nil
  then show ?case by simp
next
  case (Cons g gs)
  then obtain g' gs2 where "gs' = g' # gs2" by (cases gs') auto
  with Cons.prems Cons.IH[of gs2 "Suc j"] show ?case by auto
qed

lemma filteredOut_cong:
  "map (\<lambda>g. g s r) gs = map (\<lambda>g. g s r) gs' \<Longrightarrow> filteredOut gs s r = filteredOut gs' s r"
proof -
  assume eq: "map (\<lambda>g. g s r) gs = map (\<lambda>g. g s r) gs'"
  have "\<And>xs. list_ex (\<lambda>g. g s r) xs = list_ex id (map (\<lambda>g. g s r) xs)"
    by (simp add: list_ex_iff)
  with eq show ?thesis by (simp add: filteredOut_def)
qed

lemma cycle_cong:
  assumes "map (\<lambda>g. g s r) gs = map (\<lambda>g. g s r) gs'"
  shows "cycleCalls i gs hs s r = cycleCalls i gs' hs s r"
    and "carriedOn gs hs s r = carriedOn gs' hs s r"
  using filterCalls_cong[OF assms] filteredOut_cong[OF assms]
  by (simp_all add: cycleCalls_def carriedOn_def)

lemma streams_cong:
  assumes "\<forall>s\<in>set ss. \<forall>r. map (\<lambda>g. g s r) gs = map (\<lambda>g. g s r) gs'"
  shows "streamsCalls i gs hs ss r = streamsCalls i gs' hs ss r
       \<and> carried gs hs ss r = carried gs' hs ss r"
  using assms
proof (induction ss arbitrary: i r)
  case Nil
  then show ?case by (simp add: carried_def)
next
  case (Cons s ss)
  from Cons.prems have hd: "map (\<lambda>g. g s r) gs = map (\<lambda>g. g s r) gs'"
    and tl: "\<forall>s\<in>set ss. \<forall>r. map (\<lambda>g. g s r) gs = map (\<lambda>g. g s r) gs'" by auto
  from cycle_cong[OF hd] Cons.IH[OF tl, of "Suc i" "carriedOn gs' hs s r"] show ?case
    by (simp add: carried_def)
qed

lemma streamsCalls_independent:
  assumes agree: "\<forall>s\<in>set pre \<union> set post. \<forall>r. map (\<lambda>g. g s r) gs = map (\<lambda>g. g s r) gs'"
      and b: "b \<noteq> length pre"
      and cond: "b < length pre \<or> obfuscated hs A (carried gs hs pre r0) = carried gs hs pre r0"
  shows "callsAt b (streamsCalls 0 gs hs (pre @ A # post) r0) =
         callsAt b (streamsCalls 0 gs' hs (pre @ A # post) r0)"
proof -
  let ?rA = "carried gs hs pre r0"
  from agree have agp: "\<forall>s\<in>set pre. \<forall>r. map (\<lambda>g. g s r) gs = map (\<lambda>g. g s r) gs'"
    and agq: "\<forall>s\<in>set post. \<forall>r. map (\<lambda>g. g s r) gs = map (\<lambda>g. g s r) gs'" by auto
  from streams_cong[OF agp, of 0 hs r0] have
    p: "streamsCalls 0 gs' hs pre r0 = streamsCalls 0 gs hs pre r0" "carried gs' hs pre r0 = ?rA"
    by simp_all
  have split: "\<And>xs. streamsCalls 0 xs hs (pre @ A # post) r0 =
      streamsCalls 0 xs hs pre r0 @ cycleCalls (length pre) xs hs A (carried xs hs pre r0)
        @ streamsCalls (Suc (length pre)) xs hs post (carriedOn xs hs A (carried xs hs pre r0))"
    by (simp add: streamsCalls_append)
  have cA: "\<And>xs x. callsAt b (cycleCalls (length pre) xs hs A x) = []"
    using b by (intro callsAt_other) (auto dest: cycleCalls_streamOf)
  have "callsAt b (streamsCalls (Suc (length pre)) gs hs post (carriedOn gs hs A ?rA)) =
        callsAt b (streamsCalls (Suc (length pre)) gs' hs post (carriedOn gs' hs A ?rA))"
  proof (cases "b < length pre")
    case True
    have "\<And>xs x. callsAt b (streamsCalls (Suc (length pre)) xs hs post x) = []"
      using True by (intro callsAt_other) (fastforce dest: streamsCalls_streamOf)
    then show ?thesis by simp
  next
    case False
    with cond have "obfuscated hs A ?rA = ?rA" by simp
    then have "carriedOn gs hs A ?rA = ?rA" "carriedOn gs' hs A ?rA = ?rA"
      by (simp_all add: carriedOn_def)
    with streams_cong[OF agq, of "Suc (length pre)" hs ?rA] show ?thesis by simp
  qed
  with split[of gs] split[of gs'] p cA show ?thesis by (simp add: callsAt_append)
qed

lemma streamsCalls_at:
  assumes "b < length ss"
  shows "callsAt b (streamsCalls 0 gs hs ss r) =
         cycleCalls b gs hs (ss ! b) (carried gs hs (take b ss) r)"
proof -
  let ?pre = "take b ss" and ?post = "drop (Suc b) ss"
  from assms have ss: "ss = ?pre @ ss ! b # ?post" by (simp add: id_take_nth_drop)
  from assms have len: "length ?pre = b" by simp
  have "streamsCalls 0 gs hs (?pre @ ss ! b # ?post) r =
      streamsCalls 0 gs hs ?pre r @ cycleCalls b gs hs (ss ! b) (carried gs hs ?pre r)
        @ streamsCalls (Suc b) gs hs ?post (carriedOn gs hs (ss ! b) (carried gs hs ?pre r))"
    using len by (simp add: streamsCalls_append)
  moreover have "callsAt b (streamsCalls 0 gs hs ?pre r) = []"
    using len by (intro callsAt_other) (fastforce dest: streamsCalls_streamOf)
  moreover have "callsAt b (cycleCalls b gs hs (ss ! b) (carried gs hs ?pre r)) =
      cycleCalls b gs hs (ss ! b) (carried gs hs ?pre r)"
    by (intro callsAt_same) (auto dest: cycleCalls_streamOf)
  moreover have "callsAt b (streamsCalls (Suc b) gs hs ?post
      (carriedOn gs hs (ss ! b) (carried gs hs ?pre r))) = []"
    by (intro callsAt_other) (fastforce dest: streamsCalls_streamOf)
  ultimately have "callsAt b (streamsCalls 0 gs hs (?pre @ ss ! b # ?post) r) =
      cycleCalls b gs hs (ss ! b) (carried gs hs ?pre r)"
    by (simp add: callsAt_append)
  with ss show ?thesis by simp
qed

text \<open>
  Claim C2, as stated, fails: with an obfuscator that rewrites the message for stream 1
  only, stream 2 is handed the rewritten record when stream 1 is processed and the
  original record when stream 1 is filtered out, although both filters answer the same
  for stream 2.
\<close>

theorem filter_independence_counterexample:
  "callsAt 1 (snd (snd (logToStreams
       (testLogger 10 [pureFilter (skipStream 1)] [pureObfuscator (redactFor 1)])
       10 (Val ''obfuscate'') [] 0 [])))
   \<noteq> callsAt 1 (snd (snd (logToStreams
       (testLogger 10 [pureFilter neverSkip] [pureObfuscator (redactFor 1)])
       10 (Val ''obfuscate'') [] 0 [])))"
  by (simp add: test_defs logToStreams_def processStream_def pureFilter_def pureObfuscator_def
      callsAt_def Let_def)

text \<open>
  A filter whose answer depends on the world breaks the independence without any
  obfuscator: \<open>afterAnyHandle\<close> filters out stream 2 when stream 1 has been handled and
  lets it pass when stream 1 was filtered out.
\<close>

lemma filter_reading_the_world:
  "callsAt 1 (snd (snd (logToStreams
       (testLogger 10 [pureFilter (skipStream 1), afterAnyHandle] [])
       10 (Val ''hello'') [] 0 [])))
   \<noteq> callsAt 1 (snd (snd (logToStreams
       (testLogger 10 [pureFilter neverSkip, afterAnyHandle] [])
       10 (Val ''hello'') [] 0 [])))"
  by (simp add: test_defs logToStreams_def processStream_def pureFilter_def afterAnyHandle_def
      callsAt_def Let_def)

text \<open>
  Claim C2, amended. In an emit call that passes the level gate, let the results of the
  filters and obfuscators depend on the stream and the record only, and let two filter
  lists answer alike for every registered stream other than \<open>A\<close>. Let \<open>B\<close> be another
  stream position, registered before \<open>A\<close>, or after \<open>A\<close> when the obfuscator chain leaves
  unchanged, for \<open>A\<close>, the record that reaches \<open>A\<close>. Then the calls that concern \<open>B\<close>
  (its filter evaluations with their results, its obfuscator calls and its
  \<^verbatim>\<open>handle\<close>, with their records) are the same under both filter lists, whether or
  not \<open>A\<close> is filtered out: they are the calls of the cycle of \<open>B\<close> on the record carried
  to \<open>B\<close>.
\<close>

theorem filter_independence_amended:
  assumes gate: "\<not> minLevel lg > lvl"
      and fr: "list_all2 filterResult (filters lg) gs"
      and fr': "list_all2 filterResult fs' gs'"
      and orr: "list_all2 obfuscatorResult (obfuscators lg) hs"
      and ss: "streams lg = pre @ A # post"
      and agree: "\<forall>s\<in>set pre \<union> set post. \<forall>r. map (\<lambda>g. g s r) gs = map (\<lambda>g. g s r) gs'"
      and b: "b \<noteq> length pre"
      and cond: "b < length pre \<or>
                 obfuscated hs A (carried gs hs pre (ImmutableLogRecord (resolved m w) md lvl now))
                   = carried gs hs pre (ImmutableLogRecord (resolved m w) md lvl now)"
  shows "callsAt b (snd (snd (logToStreams lg lvl m md now w))) =
         callsAt b (snd (snd (logToStreams (lg\<lparr>filters := fs'\<rparr>) lvl m md now w)))
       \<and> (b < length (streams lg) \<longrightarrow>
            callsAt b (snd (snd (logToStreams lg lvl m md now w))) =
            cycleCalls b gs hs (streams lg ! b)
              (carried gs hs (take b (streams lg)) (ImmutableLogRecord (resolved m w) md lvl now)))"
proof -
  let ?r0 = "ImmutableLogRecord (resolved m w) md lvl now"
  have "callsAt b (snd (snd (logToStreams lg lvl m md now w))) =
        callsAt b (streamsCalls 0 gs hs (pre @ A # post) ?r0)"
    using emit_calls[OF gate fr orr, where b = b and m = m and md = md and now = now and w = w] ss
    by simp
  moreover have "callsAt b (snd (snd (logToStreams (lg\<lparr>filters := fs'\<rparr>) lvl m md now w))) =
        callsAt b (streamsCalls 0 gs' hs (pre @ A # post) ?r0)"
    using emit_calls[where lg = "lg\<lparr>filters := fs'\<rparr>" and lvl = lvl and gs = gs' and hs = hs
        and b = b and m = m and md = md and now = now and w = w] gate fr' orr ss by simp
  ultimately have same: "callsAt b (snd (snd (logToStreams lg lvl m md now w))) =
         callsAt b (snd (snd (logToStreams (lg\<lparr>filters := fs'\<rparr>) lvl m md now w)))"
    using streamsCalls_independent[OF agree b cond] by simp
  have "b < length (streams lg) \<longrightarrow>
            callsAt b (snd (snd (logToStreams lg lvl m md now w))) =
            cycleCalls b gs hs (streams lg ! b) (carried gs hs (take b (streams lg)) ?r0)"
    using emit_calls[OF gate fr orr, where b = b and m = m and md = md and now = now and w = w]
      streamsCalls_at[of b "streams lg" gs hs ?r0] by simp
  with same show ?thesis by blast
qed

theorem filter_independence_amended_witness:
  "callsAt 1 (snd (snd (logToStreams
       (testLogger 10 [countingFilter (skipStream 1)] [countingObfuscator (redactFor 2)])
       10 (Val ''obfuscate'') [] 0 [])))
   = callsAt 1 (snd (snd (logToStreams
       ((testLogger 10 [countingFilter (skipStream 1)] [countingObfuscator (redactFor 2)])
          \<lparr>filters := [countingFilter neverSkip]\<rparr>)
       10 (Val ''obfuscate'') [] 0 [])))"
proof -
  let ?lg = "testLogger 10 [countingFilter (skipStream 1)] [countingObfuscator (redactFor 2)]"
  have gate: "\<not> minLevel ?lg > 10" by (simp add: testLogger_def)
  have fr: "list_all2 filterResult (filters ?lg) [skipStream 1]"
    by (simp add: testLogger_def filterResult_def countingFilter_def)
  have fr': "list_all2 filterResult [countingFilter neverSkip] [neverSkip]"
    by (simp add: filterResult_def countingFilter_def)
  have orr: "list_all2 obfuscatorResult (obfuscators ?lg) [redactFor 2]"
    by (simp add: testLogger_def obfuscatorResult_def countingObfuscator_def)
  have ss: "streams ?lg = [] @ TestStream 1 # [TestStream 2]" by (simp add: testLogger_def)
  have agree: "\<forall>s\<in>set [] \<union> set [TestStream 2]. \<forall>r.
      map (\<lambda>g. g s r) [skipStream 1] = map (\<lambda>g. g s r) [neverSkip]"
    by (simp add: skipStream_def neverSkip_def TestStream_def)
  have b: "(1::nat) \<noteq> length ([]::(string, TestWorld) Stream list)" by simp
  have cond: "1 < length ([]::(string, TestWorld) Stream list) \<or>
      obfuscated [redactFor 2] (TestStream 1)
        (carried [skipStream 1] [redactFor 2] []
           (ImmutableLogRecord
              (resolved (Val ''obfuscate'' :: (string, TestWorld) Msg) []) [] 10 0))
      = carried [skipStream 1] [redactFor 2] []
           (ImmutableLogRecord
              (resolved (Val ''obfuscate'' :: (string, TestWorld) Msg) []) [] 10 0)"
    by (simp add: obfuscated_def carried_def redactFor_def TestStream_def)
  from filter_independence_amended[OF gate fr fr' orr ss agree b cond] show ?thesis by blast
qed

subsection \<open>Removing a stream\<close>

text \<open>
  Claim C10. \<^verbatim>\<open>removeStream\<close> calls the footer hook of its argument with the logger's
  meta and then its destroy hook, each when present, whether or not the argument is in
  the stream list; the list afterwards is the list before without the argument (so
  unchanged when the argument was not registered), and nothing else of the logger
  changes.
\<close>

theorem removeStream_hooks:
  "removeStream lg rs w =
     (lg\<lparr>streams := filter (\<lambda>s. ref s \<noteq> ref rs) (streams lg)\<rparr>,
      (case destroy rs of Some d \<Rightarrow> d | None \<Rightarrow> id)
        ((case logFooter rs of Some f \<Rightarrow> f (meta lg) | None \<Rightarrow> id) w),
      (case logFooter rs of Some f \<Rightarrow> [LogFooter (ref rs) (meta lg)] | None \<Rightarrow> [])
        @ (case destroy rs of Some d \<Rightarrow> [Destroy (ref rs)] | None \<Rightarrow> []))
   \<and> ref rs \<notin> ref ` set (streams (fst (removeStream lg rs w)))
   \<and> (ref rs \<notin> ref ` set (streams lg) \<longrightarrow> streams (fst (removeStream lg rs w)) = streams lg)"
proof -
  have "ref rs \<notin> ref ` set (streams lg) \<Longrightarrow> filter (\<lambda>s. ref s \<noteq> ref rs) (streams lg) = streams lg"
    by (simp add: filter_id_conv image_iff) metis
  then show ?thesis
    by (auto simp: removeStream_def split: option.splits)
qed

theorem removeStream_hooks_witness:
  "removeStream (testLogger 10 [] []) (TestStream 3) []
     = (testLogger 10 [] [], [(3, ''logFooter''), (3, ''destroy'')],
        [LogFooter 3 testMeta, Destroy 3])"
  using removeStream_hooks[of "testLogger 10 [] []" "TestStream 3" "[]"]
  by (simp add: test_defs)

section \<open>Properties of the rotation strategy\<close>

lemma numToString_digit: "n < 10 \<Longrightarrow> numToString n = [digit n]"
  by (simp add: numToString.simps)

lemma exists_files: "exists d p \<longleftrightarrow> files d p \<noteq> None"
  by (simp add: exists_def fileInfo_def)

lemmas sink_defs = fiveBackups_def emptyDir_def noAge_def everyBytes_def testSink_def
  withLogFileInitMode_def withLogFileRotation_def newFileStream_def byteStrategy_def
  numberedBackups_def exists_files

lemma upt_1_3: "[1..<3] = [Suc 0, 2]" "[Suc 0..<3] = [Suc 0, 2]"
  by (simp_all add: upt_conv_Cons)

lemma upt_1_6: "[1..<6] = [1, 2, 3, 4, 5]" "[Suc 0..<6] = [1, 2, 3, 4, 5]"
  by (simp_all add: upt_conv_Cons)

lemma byteStrategy_sel [simp]:
  "state (byteStrategy ab rs) = rs"
  "initLogs (byteStrategy ab rs) = ByteRotationStrategy_initLogs ab"
  "shouldRotate (byteStrategy ab rs) = ByteRotationStrategy_shouldRotate"
  "rotate (byteStrategy ab rs) = ByteRotationStrategy_rotate ab"
  "(byteStrategy ab rs)\<lparr>state := rs'\<rparr> = byteStrategy ab rs'"
  by (simp_all add: byteStrategy_def)

lemma rotationStrategy_same: "rotationStrategy st = v \<Longrightarrow> st\<lparr>rotationStrategy := v\<rparr> = st"
  by auto

subsection \<open>The sweep of \<^verbatim>\<open>initLogs\<close> in overwrite mode\<close>

lemma initLogsFiles_overwrite:
  "\<exists>d'. initLogsFiles fname Overwrite is d = Ok d'
      \<and> files d' = (\<lambda>p. if p \<in> (\<lambda>i. fname @ ''.'' @ numToString i) ` set is then None
                          else files d p)
      \<and> microtasks d' = microtasks d"
proof (induction "is" arbitrary: d)
  case Nil
  then show ?case by simp
next
  case (Cons i "is")
  let ?p = "fname @ ''.'' @ numToString i"
  show ?case
  proof (cases "exists d ?p")
    case False
    then have "files d ?p = None" by (simp add: exists_files)
    with Cons.IH[of d] False show ?thesis by (auto simp: fun_eq_iff)
  next
    case True
    then obtain c where c: "files d ?p = Some c" by (auto simp: exists_files)
    let ?d1 = "d\<lparr>ops := ops d @ [RemoveSync ?p], files := (files d)(?p := None)\<rparr>"
    from c have rm: "removeSync ?p d = Ok ?d1" by (simp add: removeSync_def)
    from Cons.IH[of ?d1] obtain d' where
      d': "initLogsFiles fname Overwrite is ?d1 = Ok d'"
          "files d' = (\<lambda>p. if p \<in> (\<lambda>i. fname @ ''.'' @ numToString i) ` set is then None
                          else files ?d1 p)"
          "microtasks d' = microtasks ?d1" by blast
    from True rm d' show ?thesis by (auto simp: fun_eq_iff)
  qed
qed

lemma sweep_five:
  "initLogsFiles ''log.txt'' Overwrite [Suc 0, 2] fiveBackups =
     Ok \<lparr>files = [''log.txt.3'' \<mapsto> ''three'', ''log.txt.4'' \<mapsto> ''four'', ''log.txt.5'' \<mapsto> ''five''],
         microtasks = 0, ops = [RemoveSync ''log.txt.1'', RemoveSync ''log.txt.2'']\<rparr>"
  by (simp add: fiveBackups_def exists_files numToString_digit digit_def removeSync_def fun_eq_iff)

lemma initLogs_five:
  "ByteRotationStrategy_initLogs noAge (everyBytes 20000 2) ''log.txt'' Overwrite fiveBackups =
     Ok (everyBytes 20000 2,
         \<lparr>files = [''log.txt.3'' \<mapsto> ''three'', ''log.txt.4'' \<mapsto> ''four'', ''log.txt.5'' \<mapsto> ''five''],
         microtasks = 0, ops = [RemoveSync ''log.txt.1'', RemoveSync ''log.txt.2'']\<rparr>)"
  by (simp add: ByteRotationStrategy_initLogs_def everyBytes_def upt_1_3 sweep_five
      del: initLogsFiles.simps)

lemma setup_five:
  "FileStream_setup id (testSink Overwrite (everyBytes 20000 2) fiveBackups) =
     Ok ((testSink Overwrite (everyBytes 20000 2) sweptBackups)
          \<lparr>logFile := Some ''log.txt'', buffer := Some (newBufWriterSync ''log.txt'' 8192)\<rparr>)"
  by (simp add: FileStream_setup_def testSink_def withLogFileInitMode_def withLogFileRotation_def
      newFileStream_def byteStrategy_def initLogs_five openSync_def sweptBackups_def fun_eq_iff)

text \<open>
  Claim C6, as stated, fails: with a policy of 2 files and the backups \<^verbatim>\<open>log.txt.1\<close> to
  \<^verbatim>\<open>log.txt.5\<close>, \<^verbatim>\<open>setup\<close> in overwrite mode returns normally and leaves the three
  backups 3, 4 and 5, which is more than 2.
\<close>

theorem retention_sweep_counterexample:
  "case FileStream_setup id (testSink Overwrite (everyBytes 20000 2) fiveBackups) of
     Ok st \<Rightarrow> numberedBackups (deno st) ''log.txt'' 5 = [3, 4, 5]
             \<and> \<not> length (numberedBackups (deno st) ''log.txt'' 5) \<le> 2
   | Err e st \<Rightarrow> False"
  by (simp only: setup_five)
    (simp add: testSink_def withLogFileInitMode_def withLogFileRotation_def
      newFileStream_def sweptBackups_def numberedBackups_def upt_1_6 exists_files
      numToString_digit digit_def)

text \<open>
  Claim C6, amended. For a policy of \<open>n\<close> files, \<^verbatim>\<open>initLogs\<close> in overwrite mode returns
  normally, leaves the strategy as it was and removes the paths \<open>filename.1\<close> to
  \<open>filename.n\<close>; every other path, a backup numbered above \<open>n\<close> included, keeps its
  content.
\<close>

theorem overwrite_sweep:
  assumes "ptype (logFileRetentionPolicy rs) = FilesT"
  shows "\<exists>d'. ByteRotationStrategy_initLogs ab rs fname Overwrite d = Ok (rs, d')
           \<and> files d' =
               (\<lambda>p. if p \<in> (\<lambda>i. fname @ ''.'' @ numToString i) `
                             {1..quantity (logFileRetentionPolicy rs)}
                     then None else files d p)"
proof -
  from initLogsFiles_overwrite[of fname "[1..<Suc (quantity (logFileRetentionPolicy rs))]" d]
  obtain d' where d': "initLogsFiles fname Overwrite [1..<Suc (quantity (logFileRetentionPolicy rs))] d = Ok d'"
    "files d' = (\<lambda>p. if p \<in> (\<lambda>i. fname @ ''.'' @ numToString i) `
                           set [1..<Suc (quantity (logFileRetentionPolicy rs))]
                     then None else files d p)" by blast
  have "set [1..<Suc (quantity (logFileRetentionPolicy rs))] = {1..quantity (logFileRetentionPolicy rs)}"
    by auto
  with d' assms show ?thesis by (simp add: ByteRotationStrategy_initLogs_def)
qed

theorem overwrite_sweep_witness:
  "\<exists>d'. ByteRotationStrategy_initLogs noAge (everyBytes 20000 2) ''log.txt'' Overwrite fiveBackups
           = Ok (everyBytes 20000 2, d')
      \<and> files d' ''log.txt.1'' = None \<and> files d' ''log.txt.2'' = None
      \<and> files d' ''log.txt.3'' = Some ''three'' \<and> files d' ''log.txt.4'' = Some ''four''
      \<and> files d' ''log.txt.5'' = Some ''five''"
proof -
  have p: "ptype (logFileRetentionPolicy (everyBytes 20000 2)) = FilesT"
    by (simp add: everyBytes_def)
  have q: "{1..quantity (logFileRetentionPolicy (everyBytes 20000 2))} = {1, 2}"
    by (auto simp: everyBytes_def)
  from overwrite_sweep[OF p, of noAge "''log.txt''" fiveBackups] obtain d' where
    d': "ByteRotationStrategy_initLogs noAge (everyBytes 20000 2) ''log.txt'' Overwrite fiveBackups
           = Ok (everyBytes 20000 2, d')"
        "files d' = (\<lambda>p. if p \<in> (\<lambda>i. ''log.txt'' @ ''.'' @ numToString i) ` {1, 2}
                          then None else files fiveBackups p)"
    unfolding q by blast
  from d'(2) have "files d' ''log.txt.1'' = None" "files d' ''log.txt.2'' = None"
      "files d' ''log.txt.3'' = Some ''three''" "files d' ''log.txt.4'' = Some ''four''"
      "files d' ''log.txt.5'' = Some ''five''"
    by (simp_all add: numToString_digit digit_def fiveBackups_def)
  with d'(1) show ?thesis by blast
qed

subsection \<open>A collision in mustNotExist mode\<close>

lemma initLogsFiles_mustNotExist:
  "k \<in> set is \<Longrightarrow> exists d (fname @ ''.'' @ numToString k) \<Longrightarrow>
     \<exists>i\<in>set is. exists d (fname @ ''.'' @ numToString i)
        \<and> initLogsFiles fname MustNotExist is d = Err (Collision (fname @ ''.'' @ numToString i)) d"
  by (induction "is") auto

text \<open>
  Claim C7. Let the sink, after \<^verbatim>\<open>super.setup()\<close>, hold a byte strategy with a policy of
  \<open>n\<close> files and the init mode mustNotExist, and let some backup \<open>filename.k\<close> with
  \<open>1 \<le> k \<le> n\<close> exist. Then \<^verbatim>\<open>initLogs\<close> throws the collision error for an existing
  backup \<open>filename.i\<close> with \<open>1 \<le> i \<le> n\<close> and leaves the strategy and the runtime as
  they were; \<^verbatim>\<open>setup\<close> throws the same error with the sink exactly as
  \<^verbatim>\<open>super.setup()\<close> left it: no file created or removed, no call of
  \<^verbatim>\<open>Deno.openSync\<close> recorded, file and buffer not set.
\<close>

theorem mustNotExist_collision:
  assumes files: "ptype (logFileRetentionPolicy rs) = FilesT"
      and k: "1 \<le> k" "k \<le> quantity (logFileRetentionPolicy rs)"
      and ex: "exists (deno (superSetup st)) (filename (superSetup st) @ ''.'' @ numToString k)"
      and strat: "rotationStrategy (superSetup st) = Some (byteStrategy ab rs)"
      and mode: "logFileInitStrategy (superSetup st) = MustNotExist"
    shows "\<exists>i. 1 \<le> i \<and> i \<le> quantity (logFileRetentionPolicy rs)
             \<and> exists (deno (superSetup st)) (filename (superSetup st) @ ''.'' @ numToString i)
             \<and> ByteRotationStrategy_initLogs ab rs (filename (superSetup st)) MustNotExist
                  (deno (superSetup st))
                = Err (Collision (filename (superSetup st) @ ''.'' @ numToString i))
                    (rs, deno (superSetup st))
             \<and> FileStream_setup superSetup st
                = Err (Collision (filename (superSetup st) @ ''.'' @ numToString i)) (superSetup st)"
proof -
  let ?st = "superSetup st"
  let ?is = "[1..<Suc (quantity (logFileRetentionPolicy rs))]"
  from k have "k \<in> set ?is" by auto
  from initLogsFiles_mustNotExist[OF this ex] obtain i where
    i: "i \<in> set ?is" "exists (deno ?st) (filename ?st @ ''.'' @ numToString i)"
       "initLogsFiles (filename ?st) MustNotExist ?is (deno ?st)
          = Err (Collision (filename ?st @ ''.'' @ numToString i)) (deno ?st)" by blast
  from i(3) files have il:
    "ByteRotationStrategy_initLogs ab rs (filename ?st) MustNotExist (deno ?st)
       = Err (Collision (filename ?st @ ''.'' @ numToString i)) (rs, deno ?st)"
    by (simp add: ByteRotationStrategy_initLogs_def)
  have same: "?st\<lparr>rotationStrategy := Some (byteStrategy ab rs)\<rparr> = ?st"
    using strat by (rule rotationStrategy_same)
  have "FileStream_setup superSetup st
          = Err (Collision (filename ?st @ ''.'' @ numToString i)) ?st"
    using strat mode il same by (simp add: FileStream_setup_def Let_def)
  with i(1,2) il show ?thesis by auto
qed

theorem mustNotExist_collision_witness:
  "FileStream_setup id (testSink MustNotExist (everyBytes 20000 2) fiveBackups)
     = Err (Collision ''log.txt.1'') (testSink MustNotExist (everyBytes 20000 2) fiveBackups)"
proof -
  let ?st = "testSink MustNotExist (everyBytes 20000 2) fiveBackups"
  have a: "ptype (logFileRetentionPolicy (everyBytes 20000 2)) = FilesT"
    and b: "(1::nat) \<le> 2" "2 \<le> quantity (logFileRetentionPolicy (everyBytes 20000 2))"
    and c: "exists (deno (id ?st)) (filename (id ?st) @ ''.'' @ numToString 2)"
    and d: "rotationStrategy (id ?st) = Some (byteStrategy noAge (everyBytes 20000 2))"
    and e: "logFileInitStrategy (id ?st) = MustNotExist"
    by (simp_all add: sink_defs numToString_digit digit_def)
  from mustNotExist_collision[where superSetup = id and st = "?st" and k = 2
      and rs = "everyBytes 20000 2" and ab = noAge, OF a b c d e] obtain i where
    i: "1 \<le> i" "i \<le> quantity (logFileRetentionPolicy (everyBytes 20000 2))"
       "ByteRotationStrategy_initLogs noAge (everyBytes 20000 2) (filename (id ?st)) MustNotExist
          (deno (id ?st))
        = Err (Collision (filename (id ?st) @ ''.'' @ numToString i)) (everyBytes 20000 2, deno (id ?st))"
       "FileStream_setup id ?st = Err (Collision (filename (id ?st) @ ''.'' @ numToString i)) (id ?st)"
    by blast
  have "ByteRotationStrategy_initLogs noAge (everyBytes 20000 2) (filename (id ?st)) MustNotExist
          (deno (id ?st))
        = Err (Collision ''log.txt.1'') (everyBytes 20000 2, deno (id ?st))"
    by (simp add: sink_defs ByteRotationStrategy_initLogs_def upt_1_3 numToString_digit digit_def)
  with i(3) have "filename (id ?st) @ ''.'' @ numToString i = ''log.txt.1''" by simp
  with i(4) show ?thesis by simp
qed

section \<open>Properties of the file sink\<close>

subsection \<open>The buffered writer\<close>

lemma bw_flush_env:
  "bw_flush bw d = (bw', d') \<Longrightarrow> ops d' = ops d \<and> microtasks d' = microtasks d
     \<and> writer bw' = writer bw \<and> capacity bw' = capacity bw"
  by (auto simp: bw_flush_def writeFile_def split: if_splits)

lemma bw_flush_bytes:
  "bw_flush bw d = (bw', d') \<Longrightarrow>
     fileBytes d' (writer bw) @ usedBuffer bw' = fileBytes d (writer bw) @ usedBuffer bw"
  by (auto simp: bw_flush_def writeFile_def fileBytes_def buffered_def split: if_splits option.splits)

lemma bw_flush_empty:
  "bw_flush bw d = (bw', d') \<Longrightarrow> usedBuffer bw' = []"
  by (auto simp: bw_flush_def buffered_def split: if_splits)

lemma bw_writeSync_env:
  "bw_writeSync bw data d = (bw', d') \<Longrightarrow> ops d' = ops d \<and> microtasks d' = microtasks d
     \<and> writer bw' = writer bw \<and> capacity bw' = capacity bw"
  by (auto simp: bw_writeSync_def writeFile_def Let_def split: if_splits prod.splits
      dest!: bw_flush_env)

lemma bw_writeSync_bytes:
  assumes "bw_writeSync bw data d = (bw', d')"
  shows "fileBytes d' (writer bw) @ usedBuffer bw' = fileBytes d (writer bw) @ usedBuffer bw @ data"
proof (cases "length data \<le> available bw")
  case True
  with assms show ?thesis by (auto simp: bw_writeSync_def)
next
  case False
  show ?thesis
  proof (cases "buffered bw = 0")
    case True
    with False assms show ?thesis
      by (auto simp: bw_writeSync_def writeFile_def fileBytes_def buffered_def split: option.splits)
  next
    case nz: False
    let ?n = "available bw"
    obtain b1 d1 where fl: "bw_flush (bw\<lparr>usedBuffer := usedBuffer bw @ take ?n data\<rparr>) d = (b1, d1)"
      by (cases "bw_flush (bw\<lparr>usedBuffer := usedBuffer bw @ take ?n data\<rparr>) d")
    from bw_flush_bytes[OF fl] bw_flush_env[OF fl] bw_flush_empty[OF fl]
    have b1: "fileBytes d1 (writer bw) = fileBytes d (writer bw) @ usedBuffer bw @ take ?n data"
      "writer b1 = writer bw" "usedBuffer b1 = []" by auto
    show ?thesis
    proof (cases "length (drop ?n data) \<le> available b1")
      case True
      with False nz assms fl have "bw' = b1\<lparr>usedBuffer := drop ?n data\<rparr>" "d' = d1"
        by (auto simp: bw_writeSync_def Let_def)
      with b1 show ?thesis by simp
    next
      case F2: False
      with False nz assms fl have "bw' = b1" "d' = writeFile (writer b1) (drop ?n data) d1"
        by (auto simp: bw_writeSync_def Let_def)
      with b1 show ?thesis
        by (auto simp: writeFile_def fileBytes_def split: option.splits)
    qed
  qed
qed

lemma writeBuffer_Some:
  assumes "buffer st = Some bw"
  shows "\<exists>st' bw'. writeBuffer enc st = Ok st' \<and> buffer st' = Some bw'
           \<and> ops (deno st') = ops (deno st) @ [WriteSync enc]
           \<and> microtasks (deno st') = microtasks (deno st)
           \<and> throughBuffer st' = throughBuffer st @ enc
           \<and> writer bw' = writer bw \<and> capacity bw' = capacity bw
           \<and> st' = st\<lparr>buffer := buffer st', deno := deno st'\<rparr>"
proof -
  obtain bw' d' where w: "bw_writeSync bw enc (deno st) = (bw', d')"
    by (cases "bw_writeSync bw enc (deno st)")
  from bw_writeSync_env[OF w] bw_writeSync_bytes[OF w] assms w show ?thesis
    by (simp add: writeBuffer_def logOp_def throughBuffer_def fileBytes_def)
qed

lemma writeBuffer_inv:
  assumes "buffer st \<noteq> None"
  shows "\<exists>st'. writeBuffer enc st = Ok st' \<and> buffer st' \<noteq> None
           \<and> deferredLogQueue st' = deferredLogQueue st \<and> format st' = format st
           \<and> rotationStrategy st' = rotationStrategy st \<and> maxBufferSize st' = maxBufferSize st"
  using assms by (auto simp: writeBuffer_def logOp_def split: prod.splits)

lemma flushBuffer_bytes:
  assumes "buffer st = Some bw"
  shows "\<exists>bw'. buffer (flushBuffer st) = Some bw' \<and> usedBuffer bw' = []
           \<and> fileBytes (deno (flushBuffer st)) (writer bw) = throughBuffer st
           \<and> deferredLogQueue (flushBuffer st) = deferredLogQueue st"
proof (cases "buffered bw > 0")
  case False
  with assms show ?thesis by (simp add: flushBuffer_def throughBuffer_def buffered_def)
next
  case True
  obtain bw' d' where fl: "bw_flush bw (deno st) = (bw', d')" by (cases "bw_flush bw (deno st)")
  from bw_flush_bytes[OF fl] bw_flush_empty[OF fl] True assms fl show ?thesis
    by (simp add: flushBuffer_def throughBuffer_def)
qed

lemma openSink_eq:
  "openSink sz rs =
     \<lparr>filename = ''log.txt'',
      rotationStrategy = Some (byteStrategy noAge (rs\<lparr>currentFileSize := 0\<rparr>)),
      logFileInitStrategy = Append, maxBufferSize = sz,
      buffer = Some (newBufWriterSync ''log.txt'' sz), logFile = Some ''log.txt'',
      deferredLogQueue = [], sinkMinLogLevel = 10, format = msg,
      deno = \<lparr>files = [''log.txt'' \<mapsto> []], microtasks = 0, ops = [OpenSync ''log.txt'']\<rparr>\<rparr>"
  by (simp add: openSink_def withBufferSize_def testSink_def withLogFileInitMode_def
      withLogFileRotation_def newFileStream_def emptyDir_def FileStream_setup_def
      ByteRotationStrategy_initLogs_def fileInfo_def openSync_def Let_def)

lemma outOfFuel_Err [simp]: "outOfFuel (Err e s) = (e = OutOfFuel)" "outOfFuel (Ok s) = False"
  by (simp_all add: outOfFuel_def)

subsection \<open>Buffer size 0\<close>

text \<open>
  Claim C9. With a buffer size of 0, \<^verbatim>\<open>log\<close> on a sink that has been set up returns
  normally for every message, whatever the bound; the only call it records is the
  write of the encoded line to the buffered writer, so neither \<^verbatim>\<open>shouldRotate\<close> nor
  \<^verbatim>\<open>rotate\<close> is called and the strategy is unchanged; the encoded line is appended
  to the bytes that have gone through the writer.
\<close>

theorem bufferSize_zero_no_rotation:
  assumes "maxBufferSize st = 0" and "buffer st = Some bw"
  shows "\<exists>st'. FileStream_log (Suc n) m st = Ok st'
           \<and> ops (deno st') = ops (deno st) @ [WriteSync (m @ [CHR 0x0A])]
           \<and> throughBuffer st' = throughBuffer st @ m @ [CHR 0x0A]
           \<and> buffer st' = Some (fst (bw_writeSync bw (m @ [CHR 0x0A]) (deno st)))
           \<and> rotationStrategy st' = rotationStrategy st"
proof -
  from assms(1) have nd: "rotationDue (m @ [CHR 0x0A]) st = (False, st)"
    by (simp add: rotationDue_def)
  from writeBuffer_Some[OF assms(2), of "m @ [CHR 0x0A]"] obtain st' bw' where
    st': "writeBuffer (m @ [CHR 0x0A]) st = Ok st'" "buffer st' = Some bw'"
         "ops (deno st') = ops (deno st) @ [WriteSync (m @ [CHR 0x0A])]"
         "throughBuffer st' = throughBuffer st @ m @ [CHR 0x0A]"
         "st' = st\<lparr>buffer := buffer st', deno := deno st'\<rparr>" by auto
  from st'(5) have rs: "rotationStrategy st' = rotationStrategy st"
    by (metis FileStream.select_convs(2) FileStream.surjective FileStream.update_convs(5,10))
  from st'(1) assms(2) have "buffer st' = Some (fst (bw_writeSync bw (m @ [CHR 0x0A]) (deno st)))"
    by (auto simp: writeBuffer_def logOp_def split: prod.splits)
  with nd st' rs show ?thesis by simp
qed

theorem bufferSize_zero_no_rotation_witness:
  "\<exists>st'. FileStream_log 1 ''a line longer than ten bytes'' (openSink 0 (everyBytes 10 7)) = Ok st'
      \<and> ops (deno st') = [OpenSync ''log.txt'', WriteSync (''a line longer than ten bytes'' @ [CHR 0x0A])]
      \<and> throughBuffer st' = ''a line longer than ten bytes'' @ [CHR 0x0A]"
proof -
  have a: "maxBufferSize (openSink 0 (everyBytes 10 7)) = 0"
    and b: "buffer (openSink 0 (everyBytes 10 7)) = Some (newBufWriterSync ''log.txt'' 0)"
    and c: "ops (deno (openSink 0 (everyBytes 10 7))) = [OpenSync ''log.txt'']"
    and d: "throughBuffer (openSink 0 (everyBytes 10 7)) = []"
    by (simp_all add: openSink_eq throughBuffer_def fileBytes_def newBufWriterSync_def)
  from bufferSize_zero_no_rotation[OF a b, of 0 "''a line longer than ten bytes''"] c d
  show ?thesis by auto
qed

subsection \<open>Draining when no rotation is due\<close>

text \<open>
  A record at or below \<^verbatim>\<open>Level.ERROR\<close> is appended to the queue, and a drain is
  scheduled exactly when the queue was empty.
\<close>

lemma handle_low:
  assumes "\<not> sinkMinLogLevel st > level r" and "\<not> level r > ERROR L"
  shows "\<exists>st'. FileStream_handle fuel L r st = Ok st'
           \<and> deferredLogQueue st' = deferredLogQueue st @ [r]
           \<and> microtasks (deno st') =
               (if deferredLogQueue st = [] then Suc (microtasks (deno st)) else microtasks (deno st))
           \<and> ops (deno st') =
               (if deferredLogQueue st = [] then ops (deno st) @ [QueueMicrotask] else ops (deno st))
           \<and> files (deno st') = files (deno st) \<and> buffer st' = buffer st"
  using assms by (simp add: FileStream_handle_def logOp_def Let_def)

lemma rotationDue_quiet:
  assumes "noRotationDue st" and "r \<in> set (deferredLogQueue st)"
  shows "\<exists>st0. rotationDue (format st r @ [CHR 0x0A]) st = (False, st0)
           \<and> buffer st0 = buffer st \<and> throughBuffer st0 = throughBuffer st
           \<and> deferredLogQueue st0 = deferredLogQueue st \<and> format st0 = format st
           \<and> rotationStrategy st0 = rotationStrategy st \<and> maxBufferSize st0 = maxBufferSize st
           \<and> microtasks (deno st0) = microtasks (deno st)"
  using assms
  by (auto simp: noRotationDue_def rotationDue_def logOp_def throughBuffer_def fileBytes_def
      list_all_iff split: option.splits)

lemma noRotationDue_cong:
  "deferredLogQueue st' = deferredLogQueue st \<Longrightarrow> format st' = format st \<Longrightarrow>
   rotationStrategy st' = rotationStrategy st \<Longrightarrow> maxBufferSize st' = maxBufferSize st \<Longrightarrow>
   noRotationDue st' = noRotationDue st"
  unfolding noRotationDue_def by (auto split: option.splits)

lemma encodedLines_cong: "format st' = format st \<Longrightarrow> encodedLines st' rs = encodedLines st rs"
  by (simp add: encodedLines_def)

text \<open>
  When no queued record makes \<^verbatim>\<open>log\<close> rotate, a drain with a bound above the length
  of the queue returns, has written the encoded line of every queued record once, in
  queue order, and leaves the queue empty; \<^verbatim>\<open>handle\<close> of a record above
  \<^verbatim>\<open>Level.ERROR\<close> then returns with an empty queue, an empty buffer and all those
  bytes in the file.
\<close>

lemma drainFrom_quiet:
  "noRotationDue st \<Longrightarrow> buffer st = Some bw \<Longrightarrow> length (deferredLogQueue st) - i < n \<Longrightarrow>
   \<exists>st' bw'. drainFrom n i st = Ok st' \<and> buffer st' = Some bw' \<and> writer bw' = writer bw
      \<and> throughBuffer st' = throughBuffer st @ encodedLines st (drop i (deferredLogQueue st))
      \<and> deferredLogQueue st' = deferredLogQueue st \<and> format st' = format st
      \<and> microtasks (deno st') = microtasks (deno st)"
proof (induction n arbitrary: st i bw)
  case 0
  then show ?case by simp
next
  case (Suc n)
  let ?q = "deferredLogQueue st"
  show ?case
  proof (cases "i < length ?q")
    case False
    with Suc.prems show ?thesis by (simp add: encodedLines_def)
  next
    case True
    let ?r = "?q ! i"
    let ?enc = "format st ?r @ [CHR 0x0A]"
    from True have mem: "?r \<in> set ?q" by simp
    from rotationDue_quiet[OF Suc.prems(1) mem] obtain st0 where
      st0: "rotationDue ?enc st = (False, st0)" "buffer st0 = buffer st"
           "throughBuffer st0 = throughBuffer st" "deferredLogQueue st0 = ?q"
           "format st0 = format st" "rotationStrategy st0 = rotationStrategy st"
           "maxBufferSize st0 = maxBufferSize st" "microtasks (deno st0) = microtasks (deno st)"
      by blast
    from st0(2) Suc.prems(2) have b0: "buffer st0 = Some bw" by simp
    from writeBuffer_Some[OF b0, of ?enc] obtain st1 bw1 where
      st1: "writeBuffer ?enc st0 = Ok st1" "buffer st1 = Some bw1"
           "microtasks (deno st1) = microtasks (deno st0)"
           "throughBuffer st1 = throughBuffer st0 @ ?enc" "writer bw1 = writer bw"
           "st1 = st0\<lparr>buffer := buffer st1, deno := deno st1\<rparr>" by blast
    from st1(6) have same: "deferredLogQueue st1 = deferredLogQueue st0" "format st1 = format st0"
        "rotationStrategy st1 = rotationStrategy st0" "maxBufferSize st1 = maxBufferSize st0"
      by (metis FileStream.select_convs FileStream.surjective FileStream.update_convs)+
    from True Suc.prems(3) obtain n1 where n: "n = Suc n1" by (cases n) auto
    from st0(1) st1(1) n have log: "FileStream_log n (format st ?r) st = Ok st1"
      by (simp add: Let_def)
    have q1: "noRotationDue st1"
      using noRotationDue_cong[of st1 st] same st0 Suc.prems(1) by simp
    have len: "length (deferredLogQueue st1) - Suc i < n"
      using Suc.prems(3) True same st0 by simp
    from Suc.IH[OF q1 st1(2) len] obtain st' bw' where
      st': "drainFrom n (Suc i) st1 = Ok st'" "buffer st' = Some bw'" "writer bw' = writer bw1"
           "throughBuffer st' = throughBuffer st1 @ encodedLines st1 (drop (Suc i) (deferredLogQueue st1))"
           "deferredLogQueue st' = deferredLogQueue st1" "format st' = format st1"
           "microtasks (deno st') = microtasks (deno st1)" by blast
    have "drop i ?q = ?r # drop (Suc i) ?q" using True by (simp add: Cons_nth_drop_Suc)
    then have el: "encodedLines st (drop i ?q) = ?enc @ encodedLines st (drop (Suc i) ?q)"
      by (simp add: encodedLines_def)
    have "drainFrom (Suc n) i st = Ok st'" using True log st'(1) by simp
    moreover have "throughBuffer st' = throughBuffer st @ encodedLines st (drop i ?q)"
      using st'(4) st1(4) st0(3) el same st0(4,5) encodedLines_cong[of st1 st] by simp
    ultimately show ?thesis using st' st1 st0 same by auto
  qed
qed

lemma processDeferredQueue_quiet:
  assumes "noRotationDue st" and "buffer st = Some bw" and "Suc (length (deferredLogQueue st)) < n"
  shows "\<exists>st' bw'. processDeferredQueue n st = Ok st' \<and> deferredLogQueue st' = []
      \<and> buffer st' = Some bw' \<and> writer bw' = writer bw
      \<and> throughBuffer st' = throughBuffer st @ encodedLines st (deferredLogQueue st)
      \<and> microtasks (deno st') = microtasks (deno st)"
proof -
  from assms(3) obtain n1 where n: "n = Suc n1" "length (deferredLogQueue st) - 0 < n1"
    by (cases n) auto
  from drainFrom_quiet[OF assms(1,2) n(2)] obtain st' bw' where
    st': "drainFrom n1 0 st = Ok st'" "buffer st' = Some bw'" "writer bw' = writer bw"
         "throughBuffer st' = throughBuffer st @ encodedLines st (drop 0 (deferredLogQueue st))"
         "microtasks (deno st') = microtasks (deno st)" by blast
  then show ?thesis using n(1) by (simp add: throughBuffer_def)
qed

lemma handle_high_quiet:
  assumes lvl: "\<not> sinkMinLogLevel st > level r" "level r > ERROR L"
      and quiet: "noRotationDue (st\<lparr>deferredLogQueue := deferredLogQueue st @ [r]\<rparr>)"
      and buf: "buffer st = Some bw"
      and fuel: "length (deferredLogQueue st) + 2 < n"
  shows "\<exists>st' bw'. FileStream_handle n L r st = Ok st' \<and> deferredLogQueue st' = []
      \<and> buffer st' = Some bw' \<and> usedBuffer bw' = []
      \<and> fileBytes (deno st') (writer bw) = throughBuffer st @ encodedLines st (deferredLogQueue st @ [r])"
proof -
  let ?st1 = "st\<lparr>deferredLogQueue := deferredLogQueue st @ [r]\<rparr>"
  have b1: "buffer ?st1 = Some bw" using buf by simp
  have f1: "Suc (length (deferredLogQueue ?st1)) < n" using fuel by simp
  from processDeferredQueue_quiet[OF quiet b1 f1] obtain st2 bw2 where
    st2: "processDeferredQueue n ?st1 = Ok st2" "deferredLogQueue st2 = []"
         "buffer st2 = Some bw2" "writer bw2 = writer bw"
         "throughBuffer st2 = throughBuffer ?st1 @ encodedLines ?st1 (deferredLogQueue ?st1)"
    by blast
  from fuel obtain n1 where n: "n = Suc n1" by (cases n) auto
  from st2(2) n have fl: "FileStream_flush n st2 = Ok (flushBuffer st2)" by simp
  from flushBuffer_bytes[OF st2(3)] st2(4) obtain bw' where
    bw': "buffer (flushBuffer st2) = Some bw'" "usedBuffer bw' = []"
         "fileBytes (deno (flushBuffer st2)) (writer bw) = throughBuffer st2"
         "deferredLogQueue (flushBuffer st2) = deferredLogQueue st2" by auto
  have "throughBuffer ?st1 = throughBuffer st"
    by (simp add: throughBuffer_def split: option.splits)
  moreover have "encodedLines ?st1 (deferredLogQueue ?st1) = encodedLines st (deferredLogQueue st @ [r])"
    by (simp add: encodedLines_def)
  ultimately show ?thesis using lvl st2 fl bw' by (simp add: FileStream_handle_def)
qed

subsection \<open>Draining when a rotation is due\<close>

text \<open>
  \<^verbatim>\<open>log\<close> calls \<^verbatim>\<open>flush\<close> before it rotates, and \<^verbatim>\<open>flush\<close> starts a drain of the
  whole queue when the queue is not empty, which it is during a drain: the queue is
  emptied only after the loop. The strategy's answer depends on its state and the line
  only, so the inner drain reaches the same record with the same answer. A drain in
  which some queued record makes \<^verbatim>\<open>log\<close> rotate therefore never returns.
\<close>

lemma drainFrom_never_returns:
  assumes k: "k < length q" and due: "shouldRotate rs (state rs) (fmt (q ! k) @ [CHR 0x0A])"
  shows "deferredLogQueue st = q \<Longrightarrow> format st = fmt \<Longrightarrow> rotationStrategy st = Some rs \<Longrightarrow>
         0 < maxBufferSize st \<Longrightarrow> buffer st \<noteq> None \<Longrightarrow> i \<le> k \<Longrightarrow> outOfFuel (drainFrom n i st)"
proof (induction n arbitrary: st i rule: less_induct)
  case (less n)
  note inv = less.prems
  show ?case
  proof (cases n)
    case 0
    then show ?thesis by simp
  next
    case (Suc n1)
    from inv k have lt: "i < length (deferredLogQueue st)" by simp
    let ?enc = "fmt (q ! i) @ [CHR 0x0A]"
    let ?st0 = "logOp (ShouldRotate ?enc) st"
    have rd: "rotationDue ?enc st = (shouldRotate rs (state rs) ?enc, ?st0)"
      using inv by (simp add: rotationDue_def)
    have log: "outOfFuel (FileStream_log n1 (fmt (q ! i)) st) \<or>
               (\<not> shouldRotate rs (state rs) ?enc \<and>
                FileStream_log n1 (fmt (q ! i)) st = writeBuffer ?enc ?st0)"
    proof (cases n1)
      case 0
      then show ?thesis by simp
    next
      case n1: (Suc n2)
      show ?thesis
      proof (cases "shouldRotate rs (state rs) ?enc")
        case False
        with rd n1 show ?thesis by (simp add: Let_def)
      next
        case True
        have "outOfFuel (FileStream_flush n2 ?st0)"
        proof (cases n2)
          case 0
          then show ?thesis by simp
        next
          case n2: (Suc n3)
          have "outOfFuel (processDeferredQueue n3 ?st0)"
          proof (cases n3)
            case 0
            then show ?thesis by simp
          next
            case n3: (Suc n4)
            have "n4 < n" using Suc n1 n2 n3 by simp
            from less.IH[OF this, of ?st0 0] inv
            have "outOfFuel (drainFrom n4 0 ?st0)" by (simp add: logOp_def)
            with n3 show ?thesis by (auto simp: outOfFuel_def split: result.splits)
          qed
          moreover have "0 < length (deferredLogQueue ?st0)" using lt by (auto simp: logOp_def)
          ultimately show ?thesis using n2 by (auto simp: outOfFuel_def split: result.splits)
        qed
        with rd True n1 show ?thesis by (auto simp: outOfFuel_def split: result.splits)
      qed
    qed
    then show ?thesis
    proof
      assume "outOfFuel (FileStream_log n1 (fmt (q ! i)) st)"
      with Suc lt inv show ?thesis by (auto simp: outOfFuel_def split: result.splits)
    next
      assume nd: "\<not> shouldRotate rs (state rs) ?enc \<and>
                FileStream_log n1 (fmt (q ! i)) st = writeBuffer ?enc ?st0"
      with due have "i \<noteq> k" by auto
      with inv have ik: "Suc i \<le> k" by simp
      from inv have "buffer ?st0 \<noteq> None" by (simp add: logOp_def)
      from writeBuffer_inv[OF this, of ?enc] obtain st' where
        st': "writeBuffer ?enc ?st0 = Ok st'" "buffer st' \<noteq> None"
             "deferredLogQueue st' = deferredLogQueue ?st0" "format st' = format ?st0"
             "rotationStrategy st' = rotationStrategy ?st0" "maxBufferSize st' = maxBufferSize ?st0"
        by blast
      have "n1 < n" using Suc by simp
      from less.IH[OF this, of st' "Suc i"] st' inv ik
      have "outOfFuel (drainFrom n1 (Suc i) st')" by (simp add: logOp_def)
      with Suc lt inv nd st' show ?thesis by simp
    qed
  qed
qed

lemma processDeferredQueue_never_returns:
  assumes "k < length (deferredLogQueue st)"
      and "shouldRotate rs (state rs) (format st (deferredLogQueue st ! k) @ [CHR 0x0A])"
      and "rotationStrategy st = Some rs" and "0 < maxBufferSize st" and "buffer st \<noteq> None"
  shows "outOfFuel (processDeferredQueue n st)"
proof (cases n)
  case 0
  then show ?thesis by simp
next
  case (Suc n1)
  from drainFrom_never_returns[OF assms(1,2) refl refl assms(3,4,5), of 0 n1]
  have "outOfFuel (drainFrom n1 0 st)" by simp
  with Suc show ?thesis by (auto simp: outOfFuel_def split: result.splits)
qed

lemma critical_due:
  "shouldRotate (byteStrategy noAge ((everyBytes 10 7)\<lparr>currentFileSize := 0\<rparr>))
     (state (byteStrategy noAge ((everyBytes 10 7)\<lparr>currentFileSize := 0\<rparr>)))
     (''disk failure on node 7'' @ [CHR 0x0A])"
  by (simp add: ByteRotationStrategy_shouldRotate_def everyBytes_def)

text \<open>
  Claim C4 at a failing input. A sink set up in an empty directory with
  \<^verbatim>\<open>every(10).bytes()\<close> is handed a record of level 50, above \<^verbatim>\<open>Level.ERROR\<close> = 40,
  whose line has 23 bytes: \<^verbatim>\<open>handle\<close> does not return, whatever the bound, so the
  bytes of the record never reach the file within the call.
\<close>

theorem high_severity_rotation_never_returns:
  "\<forall>fuel. outOfFuel
     (FileStream_handle fuel testLevels (ImmutableLogRecord ''disk failure on node 7'' [] 50 0)
        (openSink 8192 (everyBytes 10 7)))"
proof
  fix fuel
  let ?r = "ImmutableLogRecord ''disk failure on node 7'' [] 50 0"
  let ?st = "(openSink 8192 (everyBytes 10 7))\<lparr>deferredLogQueue := [?r]\<rparr>"
  have "outOfFuel (processDeferredQueue fuel ?st)"
  proof (rule processDeferredQueue_never_returns[where k = 0
        and rs = "byteStrategy noAge ((everyBytes 10 7)\<lparr>currentFileSize := 0\<rparr>)"])
    show "0 < length (deferredLogQueue ?st)" by simp
    show "shouldRotate (byteStrategy noAge ((everyBytes 10 7)\<lparr>currentFileSize := 0\<rparr>))
            (state (byteStrategy noAge ((everyBytes 10 7)\<lparr>currentFileSize := 0\<rparr>)))
            (format ?st (deferredLogQueue ?st ! 0) @ [CHR 0x0A])"
      using critical_due by (simp add: openSink_eq ImmutableLogRecord_def)
    show "rotationStrategy ?st = Some (byteStrategy noAge ((everyBytes 10 7)\<lparr>currentFileSize := 0\<rparr>))"
      by (simp add: openSink_eq)
    show "0 < maxBufferSize ?st" by (simp add: openSink_eq)
    show "buffer ?st \<noteq> None" by (simp add: openSink_eq)
  qed
  moreover have "FileStream_handle fuel testLevels ?r (openSink 8192 (everyBytes 10 7)) =
      (case processDeferredQueue fuel ?st of
         Err e st1 \<Rightarrow> Err e st1
       | Ok st1 \<Rightarrow> FileStream_flush fuel st1)"
    by (simp add: FileStream_handle_def openSink_eq ImmutableLogRecord_def testLevels_def)
  ultimately show "outOfFuel (FileStream_handle fuel testLevels ?r (openSink 8192 (everyBytes 10 7)))"
    by (auto simp: outOfFuel_def split: result.splits)
qed

text \<open>
  Claim C5 at a failing input. The same sink is handed three records of level 40 in one
  turn, the third with a line of 18 bytes: the three calls of \<^verbatim>\<open>handle\<close> queue them
  and schedule one drain; the drain, run as a microtask, does not return, whatever the
  bound, so it does not leave the queue empty.
\<close>

theorem deferred_drain_rotation_never_returns:
  "(case FileStream_handle 1 testLevels (ImmutableLogRecord ''a'' [] 40 0)
          (openSink 8192 (everyBytes 10 7)) of
      Err e s \<Rightarrow> False
    | Ok s1 \<Rightarrow>
       (case FileStream_handle 1 testLevels (ImmutableLogRecord ''b'' [] 40 0) s1 of
          Err e s \<Rightarrow> False
        | Ok s2 \<Rightarrow>
           (case FileStream_handle 1 testLevels (ImmutableLogRecord ''request timed out'' [] 40 0) s2 of
              Err e s \<Rightarrow> False
            | Ok s3 \<Rightarrow> s3 = threeQueued)))
   \<and> (\<forall>fuel. outOfFuel (runMicrotask fuel threeQueued))"
proof
  show "case FileStream_handle 1 testLevels (ImmutableLogRecord ''a'' [] 40 0)
          (openSink 8192 (everyBytes 10 7)) of
      Err e s \<Rightarrow> False
    | Ok s1 \<Rightarrow>
       (case FileStream_handle 1 testLevels (ImmutableLogRecord ''b'' [] 40 0) s1 of
          Err e s \<Rightarrow> False
        | Ok s2 \<Rightarrow>
           (case FileStream_handle 1 testLevels (ImmutableLogRecord ''request timed out'' [] 40 0) s2 of
              Err e s \<Rightarrow> False
            | Ok s3 \<Rightarrow> s3 = threeQueued))"
    by (simp add: FileStream_handle_def openSink_eq ImmutableLogRecord_def testLevels_def
      logOp_def threeQueued_def Let_def)
next
  show "\<forall>fuel. outOfFuel (runMicrotask fuel threeQueued)"
  proof
    fix fuel
    let ?st = "threeQueued\<lparr>deno := (deno threeQueued)\<lparr>microtasks := microtasks (deno threeQueued) - 1\<rparr>\<rparr>"
    have "outOfFuel (processDeferredQueue fuel ?st)"
    proof (rule processDeferredQueue_never_returns[where k = 2
          and rs = "byteStrategy noAge ((everyBytes 10 7)\<lparr>currentFileSize := 0\<rparr>)"])
      show "2 < length (deferredLogQueue ?st)" by (simp add: threeQueued_def)
      show "shouldRotate (byteStrategy noAge ((everyBytes 10 7)\<lparr>currentFileSize := 0\<rparr>))
              (state (byteStrategy noAge ((everyBytes 10 7)\<lparr>currentFileSize := 0\<rparr>)))
              (format ?st (deferredLogQueue ?st ! 2) @ [CHR 0x0A])"
        by (simp add: threeQueued_def openSink_eq ImmutableLogRecord_def
            ByteRotationStrategy_shouldRotate_def everyBytes_def)
      show "rotationStrategy ?st = Some (byteStrategy noAge ((everyBytes 10 7)\<lparr>currentFileSize := 0\<rparr>))"
        by (simp add: threeQueued_def openSink_eq)
      show "0 < maxBufferSize ?st" by (simp add: threeQueued_def openSink_eq)
      show "buffer ?st \<noteq> None" by (simp add: threeQueued_def openSink_eq)
    qed
    moreover have "microtasks (deno threeQueued) \<noteq> 0" by (simp add: threeQueued_def)
    ultimately show "outOfFuel (runMicrotask fuel threeQueued)"
      by (simp add: runMicrotask_def)
  qed
qed

text \<open>
  Before the bound is used up the inner drain has already written the first record a
  second time: here with a bound of 9.
\<close>

lemma drain_rewrites_earlier_records:
  "case runMicrotask 9 threeQueued of
     Ok s \<Rightarrow> False
   | Err e s \<Rightarrow> e = OutOfFuel \<and> filter isWrite (ops (deno s)) =
       [WriteSync (''a'' @ [CHR 0x0A]), WriteSync (''b'' @ [CHR 0x0A]), WriteSync (''a'' @ [CHR 0x0A])]"
  by code_simp

end
